theory Spec2Isabelle
  imports Complex_Main "HOL-Library.Word" "HOL-Library.Multiset"
begin

section \<open>Numbers\<close>

text \<open>
  The builders of \<^verbatim>\<open>BVHBuilder.cpp\<close> and \<^verbatim>\<open>SBVHBuilder.cpp\<close> compute with
  \<^verbatim>\<open>int\<close> and \<^verbatim>\<open>float\<close>. Indices and counts are modelled as \<open>int\<close>; the one place
  where the 32 bits matter, the axis tag \<^verbatim>\<open>(dimension + 1) << 30\<close>, goes through
  \<open>32 word\<close>.

  Coordinates, surface areas and the running counts \<^verbatim>\<open>n_1\<close>, \<^verbatim>\<open>n_2\<close> are finite
  floats and are idealised as \<open>real\<close> (exact arithmetic, no rounding). The values
  that can be non-finite in the source (split costs, which start at \<^verbatim>\<open>INFINITY\<close>,
  the reciprocal of the root's surface area and the ratio derived from it) have the
  type \<open>float\<close> below: a finite real, an infinity or NaN, with the IEEE rules for
  comparison (every comparison with NaN is false) and multiplication.
\<close>

datatype float = NaN | MInf | Fin real | PInf

fun fle :: "float \<Rightarrow> float \<Rightarrow> bool" where
  "fle NaN _ = False"
| "fle _ NaN = False"
| "fle MInf _ = True"
| "fle _ PInf = True"
| "fle (Fin a) (Fin b) = (a \<le> b)"
| "fle (Fin a) MInf = False"
| "fle PInf _ = False"

fun flt :: "float \<Rightarrow> float \<Rightarrow> bool" where
  "flt NaN _ = False"
| "flt _ NaN = False"
| "flt PInf _ = False"
| "flt _ MInf = False"
| "flt (Fin a) (Fin b) = (a < b)"
| "flt MInf _ = True"
| "flt (Fin a) PInf = True"

definition fge :: "float \<Rightarrow> float \<Rightarrow> bool" where
  "fge a b = fle b a"

definition fgt :: "float \<Rightarrow> float \<Rightarrow> bool" where
  "fgt a b = flt b a"

fun feq :: "float \<Rightarrow> float \<Rightarrow> bool" where
  "feq NaN _ = False"
| "feq _ NaN = False"
| "feq a b = (a = b)"

fun fsgn :: "float \<Rightarrow> int" where
  "fsgn (Fin a) = (if a < 0 then -1 else if a = 0 then 0 else 1)"
| "fsgn PInf = 1"
| "fsgn MInf = -1"
| "fsgn NaN = 0"

fun fmul :: "float \<Rightarrow> float \<Rightarrow> float" where
  "fmul NaN _ = NaN"
| "fmul _ NaN = NaN"
| "fmul (Fin a) (Fin b) = Fin (a * b)"
| "fmul a b =
     (if fsgn a * fsgn b = 0 then NaN else if fsgn a * fsgn b > 0 then PInf else MInf)"

text \<open>\<^verbatim>\<open>1.0f / s\<close> for a finite \<open>s\<close>; a surface area is never the negative zero.\<close>

definition frecip :: "real \<Rightarrow> float" where
  "frecip s = (if s = 0 then PInf else Fin (1 / s))"

text \<open>\<^verbatim>\<open>int(f)\<close> on a finite float truncates towards zero.\<close>

definition trunc_int :: "real \<Rightarrow> int" where
  "trunc_int r = (if 0 \<le> r then \<lfloor>r\<rfloor> else \<lceil>r\<rceil>)"

section \<open>Geometry\<close>

datatype Vector3 = Vector3 (vx: real) (vy: real) (vz: real)

text \<open>\<^verbatim>\<open>v[dimension]\<close>; the source defines it for the dimensions 0, 1 and 2 only, the
  model reads the last component for any other dimension.\<close>

definition vec_index :: "Vector3 \<Rightarrow> int \<Rightarrow> real" where
  "vec_index v d = (if d = 0 then vx v else if d = 1 then vy v else vz v)"

definition vec_min :: "Vector3 \<Rightarrow> Vector3 \<Rightarrow> Vector3" where
  "vec_min a b = Vector3 (min (vx a) (vx b)) (min (vy a) (vy b)) (min (vz a) (vz b))"

definition vec_max :: "Vector3 \<Rightarrow> Vector3 \<Rightarrow> Vector3" where
  "vec_max a b = Vector3 (max (vx a) (vx b)) (max (vy a) (vy b)) (max (vz a) (vz b))"

record AABB =
  aabb_min :: Vector3
  aabb_max :: Vector3

text \<open>Modelled from the spec: the AABB algebra of \<^verbatim>\<open>AABB.h\<close>, which is not among the
  sources. \<open>is_valid\<close> is \<open>min \<le> max\<close> componentwise; \<open>surface_area\<close> is
  \<open>2 (ex ey + ey ez + ez ex)\<close> and 0 on an invalid box; \<open>overlap\<close> is the
  componentwise max of the mins and min of the maxes; \<open>expand\<close> is the
  componentwise min and max.\<close>

definition is_valid :: "AABB \<Rightarrow> bool" where
  "is_valid b \<longleftrightarrow>
     vx (aabb_min b) \<le> vx (aabb_max b) \<and> vy (aabb_min b) \<le> vy (aabb_max b) \<and>
     vz (aabb_min b) \<le> vz (aabb_max b)"

definition surface_area :: "AABB \<Rightarrow> real" where
  "surface_area b =
     (if is_valid b then
        (let ex = vx (aabb_max b) - vx (aabb_min b);
             ey = vy (aabb_max b) - vy (aabb_min b);
             ez = vz (aabb_max b) - vz (aabb_min b)
         in 2 * (ex * ey + ey * ez + ez * ex))
      else 0)"

definition overlap :: "AABB \<Rightarrow> AABB \<Rightarrow> AABB" where
  "overlap a b =
     \<lparr>aabb_min = vec_max (aabb_min a) (aabb_min b), aabb_max = vec_min (aabb_max a) (aabb_max b)\<rparr>"

definition expand :: "AABB \<Rightarrow> AABB \<Rightarrow> AABB" where
  "expand a b =
     \<lparr>aabb_min = vec_min (aabb_min a) (aabb_min b), aabb_max = vec_max (aabb_max a) (aabb_max b)\<rparr>"

text \<open>\<open>inside a b\<close>: the box \<open>a\<close> lies in the box \<open>b\<close>.\<close>

definition inside :: "AABB \<Rightarrow> AABB \<Rightarrow> bool" where
  "inside a b \<longleftrightarrow>
     vx (aabb_min b) \<le> vx (aabb_min a) \<and> vx (aabb_max a) \<le> vx (aabb_max b) \<and>
     vy (aabb_min b) \<le> vy (aabb_min a) \<and> vy (aabb_max a) \<le> vy (aabb_max b) \<and>
     vz (aabb_min b) \<le> vz (aabb_min a) \<and> vz (aabb_max a) \<le> vz (aabb_max b)"

record Triangle =
  position_0 :: Vector3
  position_1 :: Vector3
  position_2 :: Vector3
  tri_aabb :: AABB

text \<open>Modelled from the spec: \<^verbatim>\<open>Triangle::get_center\<close> is not among the sources; the
  centroid is the arithmetic mean of the vertices.\<close>

definition get_center :: "Triangle \<Rightarrow> Vector3" where
  "get_center t =
     Vector3 ((vx (position_0 t) + vx (position_1 t) + vx (position_2 t)) / 3)
             ((vy (position_0 t) + vy (position_1 t) + vy (position_2 t)) / 3)
             ((vz (position_0 t) + vz (position_1 t) + vz (position_2 t)) / 3)"

section \<open>Nodes\<close>

text \<open>Modelled from the spec: \<^verbatim>\<open>BVHNode\<close> (\<^verbatim>\<open>BVH.h\<close> is not among the sources) in the
  packed convention: \<^verbatim>\<open>left\<close> and \<^verbatim>\<open>first\<close> share one field, \<^verbatim>\<open>count\<close> holds the
  number of references of a leaf, or the split axis plus one in its top two bits for an
  interior node. The node array is memory indexed by \<open>int\<close>; a field is \<open>None\<close> until
  the builder writes it.\<close>

record BVHNode =
  nd_aabb :: "AABB option"
  nd_left :: "int option"
  nd_count :: "int option"

definition blank :: BVHNode where
  "blank = \<lparr>nd_aabb = None, nd_left = None, nd_count = None\<rparr>"

text \<open>\<^verbatim>\<open>(dimension + 1) << 30\<close> on a 32-bit \<^verbatim>\<open>int\<close>.\<close>

definition axis_tag :: "int \<Rightarrow> int" where
  "axis_tag dimension = sint (push_bit 30 (word_of_int (dimension + 1) :: 32 word))"

text \<open>The top two bits of a \<^verbatim>\<open>count\<close> field.\<close>

definition tag_bits :: "int \<Rightarrow> int" where
  "tag_bits c = uint (drop_bit 30 (word_of_int c :: 32 word))"

section \<open>What the builders call\<close>

text \<open>
  \<^verbatim>\<open>BVHPartitions.h\<close>, the builders' headers and \<^verbatim>\<open>std::sort\<close> are not among the
  sources. The functions and constants the builders take from them are parameters of
  the model, collected in the record \<open>kernels\<close>. A partition function reads the
  triangles, the three index arrays, the range and (for the SBVH) the node's box, and
  reports its result in the record that stands for its output arguments.
\<close>

type_synonym triangles = "int \<Rightarrow> Triangle"

type_synonym index_arrays = "int \<Rightarrow> int \<Rightarrow> int"

record object_split =
  os_index :: int
  os_dimension :: int
  os_cost :: float
  os_aabb_left :: AABB
  os_aabb_right :: AABB

record spatial_split =
  ss_index :: int
  ss_dimension :: int
  ss_cost :: float
  ss_aabb_left :: AABB
  ss_aabb_right :: AABB
  ss_count_left :: int
  ss_count_right :: int

record sah_split =
  sah_index :: int
  sah_dimension :: int
  sah_cost :: float

record kernels =
  partition_object :: "triangles \<Rightarrow> index_arrays \<Rightarrow> int \<Rightarrow> int \<Rightarrow> AABB \<Rightarrow> object_split"
  partition_spatial :: "triangles \<Rightarrow> index_arrays \<Rightarrow> int \<Rightarrow> int \<Rightarrow> AABB \<Rightarrow> spatial_split"
  partition_sah :: "triangles \<Rightarrow> index_arrays \<Rightarrow> int \<Rightarrow> int \<Rightarrow> sah_split"
  split_indices :: "triangles \<Rightarrow> index_arrays \<Rightarrow> int \<Rightarrow> int \<Rightarrow> int \<Rightarrow> int \<Rightarrow> real \<Rightarrow> index_arrays"
  calculate_bounds :: "triangles \<Rightarrow> (int \<Rightarrow> int) \<Rightarrow> int \<Rightarrow> int \<Rightarrow> AABB"
  std_sort :: "(int \<Rightarrow> real) \<Rightarrow> (int \<Rightarrow> int) \<Rightarrow> int \<Rightarrow> int \<Rightarrow> int"
  SBVH_BIN_COUNT :: int
  SBVH_OVERALLOCATION :: int
  max_primitives_in_leaf :: int

section \<open>State and errors\<close>

text \<open>
  An \<^verbatim>\<open>assert\<close> that fails and a call of \<^verbatim>\<open>abort()\<close> end the build; the error names
  the source line. \<open>Undefined\<close> stands for undefined behaviour the model can reach:
  reading a variable or a node field that was never written, converting a non-finite
  float to \<^verbatim>\<open>int\<close>.
\<close>

datatype error = AssertFailed nat | Aborted nat | Undefined

record builder_state =
  nodes :: "int \<Rightarrow> BVHNode"
  indices :: index_arrays
  temp :: "int \<Rightarrow> int \<Rightarrow> int"
  node_index :: int

text \<open>\<^verbatim>\<open>node.first = first_index; node.count = index_count;\<close>\<close>

definition write_leaf :: "int \<Rightarrow> int \<Rightarrow> int \<Rightarrow> builder_state \<Rightarrow> builder_state" where
  "write_leaf node first_index index_count st =
     st\<lparr>nodes := (nodes st)(node := (nodes st node)\<lparr>nd_left := Some first_index, nd_count := Some index_count\<rparr>)\<rparr>"

text \<open>\<^verbatim>\<open>node.left = node_index; node_index += 2;\<close>\<close>

definition reserve_children :: "int \<Rightarrow> builder_state \<Rightarrow> builder_state" where
  "reserve_children node st =
     st\<lparr>nodes := (nodes st)(node := (nodes st node)\<lparr>nd_left := Some (node_index st)\<rparr>),
        node_index := node_index st + 2\<rparr>"

text \<open>\<^verbatim>\<open>node.count = (dimension + 1) << 30;\<close>\<close>

definition write_axis :: "int \<Rightarrow> int \<Rightarrow> builder_state \<Rightarrow> builder_state" where
  "write_axis node dimension st =
     st\<lparr>nodes := (nodes st)(node := (nodes st node)\<lparr>nd_count := Some (axis_tag dimension)\<rparr>)\<rparr>"

text \<open>\<^verbatim>\<open>nodes[k].aabb = box;\<close>\<close>

definition write_aabb :: "int \<Rightarrow> AABB \<Rightarrow> builder_state \<Rightarrow> builder_state" where
  "write_aabb k box st =
     st\<lparr>nodes := (nodes st)(k := (nodes st k)\<lparr>nd_aabb := Some box\<rparr>)\<rparr>"

text \<open>\<^verbatim>\<open>memcpy(a + pos, xs, ...)\<close>: the list is written from position \<open>pos\<close> on.\<close>

primrec write_list :: "(int \<Rightarrow> int) \<Rightarrow> int \<Rightarrow> int list \<Rightarrow> int \<Rightarrow> int" where
  "write_list a pos [] = a"
| "write_list a pos (v # vs) = write_list (a(pos := v)) (pos + 1) vs"

section \<open>The SBVH builder: splitting a range\<close>

subsection \<open>Object split (\<^verbatim>\<open>SBVHBuilder.cpp\<close>, lines 92 to 144)\<close>

text \<open>
  The \<^verbatim>\<open>while\<close> loop of lines 110 to 120: from position \<open>j\<close> downwards, as long as
  the primitive at \<open>j\<close> has the split coordinate, look for \<open>index\<close>.
\<close>

function scan_left :: "triangles \<Rightarrow> (int \<Rightarrow> int) \<Rightarrow> int \<Rightarrow> real \<Rightarrow> int \<Rightarrow> int \<Rightarrow> int \<Rightarrow> bool" where
  "scan_left tris a dimension split first_index index j =
     (if first_index \<le> j \<and> vec_index (get_center (tris (a j))) dimension = split
      then (if a j = index then True
            else scan_left tris a dimension split first_index index (j - 1))
      else False)"
  by pat_completeness auto
termination
  by (relation "measure (\<lambda>(tris, a, dimension, split, first_index, index, j). nat (j - first_index + 1))") auto

text \<open>
  The inner \<^verbatim>\<open>for\<close> loop of lines 99 to 128 for one \<open>dimension\<close>, with \<open>k\<close> iterations
  to go from position \<open>i\<close>. \<^verbatim>\<open>children_left[dimension]\<close> is
  \<^verbatim>\<open>indices[dimension] + first_index\<close>, so a primitive that goes left is written back
  into the index array itself; \<^verbatim>\<open>children_right[dimension]\<close> is a fresh buffer filled
  from its start, the list \<open>right\<close>. The scan reads the array of the split dimension
  as it is at that moment.
\<close>

primrec object_split_loop ::
  "triangles \<Rightarrow> object_split \<Rightarrow> real \<Rightarrow> int \<Rightarrow> int \<Rightarrow> nat \<Rightarrow> int \<Rightarrow>
   index_arrays \<times> int \<times> int list \<Rightarrow> index_arrays \<times> int \<times> int list" where
  "object_split_loop tris obj split first_index dimension 0 i s = s"
| "object_split_loop tris obj split first_index dimension (Suc k) i s =
     (let (idx, left_count, right) = s;
          index = idx dimension i;
          c = vec_index (get_center (tris index)) (os_dimension obj);
          goes_left = (c < split \<or>
            (c = split \<and>
             scan_left tris (idx (os_dimension obj)) (os_dimension obj) split first_index index
               (os_index obj - 1)))
      in object_split_loop tris obj split first_index dimension k (i + 1)
           (if goes_left
            then (idx(dimension := (idx dimension)(first_index + left_count := index)),
                  left_count + 1, right)
            else (idx, left_count, right @ [index])))"

text \<open>What a split hands to the recursion: the index arrays with the left children in
  place, the three right buffers, the two counts and the two child boxes.\<close>

record partition =
  p_indices :: index_arrays
  p_temp :: "int \<Rightarrow> int \<Rightarrow> int"
  children_right :: "int list \<times> int list \<times> int list"
  n_left :: int
  n_right :: int
  child_aabb_left :: AABB
  child_aabb_right :: AABB

definition object_split_partition ::
  "triangles \<Rightarrow> object_split \<Rightarrow> int \<Rightarrow> int \<Rightarrow> builder_state \<Rightarrow> error + partition" where
  "object_split_partition tris obj first_index index_count st =
     (let split = vec_index (get_center (tris (indices st (os_dimension obj) (os_index obj))))
                    (os_dimension obj);
          (idx0, l0, r0) = object_split_loop tris obj split first_index 0 (nat index_count)
                             first_index (indices st, 0, []);
          (idx1, l1, r1) = object_split_loop tris obj split first_index 1 (nat index_count)
                             first_index (idx0, 0, []);
          (idx2, l2, r2) = object_split_loop tris obj split first_index 2 (nat index_count)
                             first_index (idx1, 0, [])
      in if \<not> (l0 = l1 \<and> l1 = l2) then Inl (AssertFailed 132)
         else if \<not> (length r0 = length r1 \<and> length r1 = length r2) then Inl (AssertFailed 133)
         else if first_index + l0 \<noteq> os_index obj then Inl (AssertFailed 140)
         else if l0 + int (length r0) \<noteq> index_count then Inl (AssertFailed 141)
         else Inr \<lparr>p_indices = idx2, p_temp = temp st, children_right = (r0, r1, r2),
                   n_left = l0, n_right = int (length r0),
                   child_aabb_left = os_aabb_left obj, child_aabb_right = os_aabb_right obj\<rparr>)"

subsection \<open>Spatial split (lines 146 to 291)\<close>

text \<open>The values the first loop of the spatial split carries along: the two child
  boxes, which unsplitting grows, the running counts and the rejection counters.\<close>

record sides =
  aabb_left :: AABB
  aabb_right :: AABB
  n_1 :: real
  n_2 :: real
  rejected_left :: int
  rejected_right :: int

text \<open>Lines 209 to 251, for a primitive that goes to both sides: the three SAH costs and
  the decision. The result is \<open>(goes_left, goes_right)\<close> and the updated values.\<close>

definition c_split :: "sides \<Rightarrow> real" where
  "c_split s = surface_area (aabb_left s) * n_1 s + surface_area (aabb_right s) * n_2 s"

definition c_1 :: "AABB \<Rightarrow> sides \<Rightarrow> real" where
  "c_1 triangle_aabb s =
     surface_area (expand (aabb_left s) triangle_aabb) * n_1 s +
     surface_area (aabb_right s) * (n_2 s - 1)"

definition c_2 :: "AABB \<Rightarrow> sides \<Rightarrow> real" where
  "c_2 triangle_aabb s =
     surface_area (aabb_left s) * (n_1 s - 1) +
     surface_area (expand (aabb_right s) triangle_aabb) * n_2 s"

definition remove_from_left :: "AABB \<Rightarrow> sides \<Rightarrow> bool \<times> bool \<times> sides" where
  "remove_from_left triangle_aabb s =
     (False, True,
      s\<lparr>rejected_left := rejected_left s + 1, n_1 := n_1 s - 1,
        aabb_right := expand (aabb_right s) triangle_aabb\<rparr>)"

definition remove_from_right :: "AABB \<Rightarrow> sides \<Rightarrow> bool \<times> bool \<times> sides" where
  "remove_from_right triangle_aabb s =
     (True, False,
      s\<lparr>rejected_right := rejected_right s + 1, n_2 := n_2 s - 1,
        aabb_left := expand (aabb_left s) triangle_aabb\<rparr>)"

definition unsplit :: "AABB \<Rightarrow> sides \<Rightarrow> bool \<times> bool \<times> sides" where
  "unsplit triangle_aabb s =
     (if c_1 triangle_aabb s < c_split s then
        (if c_2 triangle_aabb s < c_1 triangle_aabb s then remove_from_left triangle_aabb s
         else remove_from_right triangle_aabb s)
      else if c_2 triangle_aabb s < c_split s then remove_from_left triangle_aabb s
      else (True, True, s))"

text \<open>
  Lines 168 to 253 for one primitive. The vertices sorted in lines 173 to 185 and
  \<^verbatim>\<open>bounds_step\<close> are never read and are left out. When the extended bounds have
  no width the source divides by zero and converts a non-finite float to \<^verbatim>\<open>int\<close>.
\<close>

definition bin_of :: "int \<Rightarrow> AABB \<Rightarrow> int \<Rightarrow> real \<Rightarrow> int" where
  "bin_of bin_count box dimension v =
     (let bounds_min = vec_index (aabb_min box) dimension - 0.001;
          bounds_max = vec_index (aabb_max box) dimension + 0.001;
          inv_bounds_delta = 1 / (bounds_max - bounds_min)
      in trunc_int (of_int bin_count * ((v - bounds_min) * inv_bounds_delta)))"

definition classify ::
  "int \<Rightarrow> AABB \<Rightarrow> spatial_split \<Rightarrow> Triangle \<Rightarrow> sides \<Rightarrow> error + bool \<times> bool \<times> sides" where
  "classify bin_count box sp triangle s =
     (let dimension = ss_dimension sp;
          triangle_aabb = overlap (tri_aabb triangle) box
      in if vec_index (aabb_max box) dimension + 0.001 - (vec_index (aabb_min box) dimension - 0.001) = 0
         then Inl Undefined
         else
          (let bin_min = bin_of bin_count box dimension (vec_index (aabb_min triangle_aabb) dimension);
               bin_max = bin_of bin_count box dimension (vec_index (aabb_max triangle_aabb) dimension);
               goes_left = bin_min < ss_index sp;
               goes_right = ss_index sp \<le> bin_max;
               valid_left = is_valid (overlap triangle_aabb (aabb_left s));
               valid_right = is_valid (overlap triangle_aabb (aabb_right s));
               s1 = (if goes_left \<and> \<not> valid_left then s\<lparr>rejected_left := rejected_left s + 1\<rparr> else s);
               goes_left1 = (goes_left \<and> valid_left);
               s2 = (if goes_right \<and> \<not> valid_right then s1\<lparr>rejected_right := rejected_right s1 + 1\<rparr> else s1);
               goes_right1 = (goes_right \<and> valid_right);
               (goes_left2, goes_right2, s3) =
                 (if goes_left1 \<and> goes_right1 then unsplit triangle_aabb s2
                  else (goes_left1, goes_right1, s2))
           in if \<not> (goes_left2 \<or> goes_right2) then Inl (AssertFailed 253)
              else Inr (goes_left2, goes_right2, s3)))"

text \<open>The loop of lines 167 to 257 over the array of the split dimension; the decisions
  go into the lookup tables \<^verbatim>\<open>temp[0]\<close> and \<^verbatim>\<open>temp[1]\<close>.\<close>

primrec spatial_split_loop ::
  "int \<Rightarrow> AABB \<Rightarrow> spatial_split \<Rightarrow> triangles \<Rightarrow> (int \<Rightarrow> int) \<Rightarrow> nat \<Rightarrow> int \<Rightarrow>
   sides \<times> (int \<Rightarrow> int \<Rightarrow> int) \<Rightarrow> error + sides \<times> (int \<Rightarrow> int \<Rightarrow> int)" where
  "spatial_split_loop bin_count box sp tris a 0 i st = Inr st"
| "spatial_split_loop bin_count box sp tris a (Suc k) i st =
     (let (s, tmp) = st;
          index = a i
      in case classify bin_count box sp (tris index) s of
           Inl e \<Rightarrow> Inl e
         | Inr (goes_left, goes_right, s') \<Rightarrow>
             spatial_split_loop bin_count box sp tris a k (i + 1)
               (s', tmp(0 := (tmp 0)(index := of_bool goes_left),
                        1 := (tmp 1)(index := of_bool goes_right))))"

text \<open>The inner loop of lines 261 to 269 for one dimension.\<close>

primrec lookup_loop ::
  "(int \<Rightarrow> int \<Rightarrow> int) \<Rightarrow> int \<Rightarrow> int \<Rightarrow> nat \<Rightarrow> int \<Rightarrow>
   index_arrays \<times> int \<times> int list \<Rightarrow> index_arrays \<times> int \<times> int list" where
  "lookup_loop tmp first_index dimension 0 i s = s"
| "lookup_loop tmp first_index dimension (Suc k) i s =
     (let (idx, left_count, right) = s;
          index = idx dimension i;
          goes_left = (tmp 0 index \<noteq> 0);
          goes_right = (tmp 1 index \<noteq> 0)
      in lookup_loop tmp first_index dimension k (i + 1)
           (if goes_left
            then idx(dimension := (idx dimension)(first_index + left_count := index))
            else idx,
            if goes_left then left_count + 1 else left_count,
            if goes_right then right @ [index] else right))"

definition spatial_split_partition ::
  "int \<Rightarrow> triangles \<Rightarrow> AABB \<Rightarrow> spatial_split \<Rightarrow> int \<Rightarrow> int \<Rightarrow> builder_state \<Rightarrow> error + partition" where
  "spatial_split_partition bin_count tris box sp first_index index_count st =
     (case spatial_split_loop bin_count box sp tris (indices st (ss_dimension sp))
             (nat index_count) first_index
             (\<lparr>aabb_left = ss_aabb_left sp, aabb_right = ss_aabb_right sp,
               n_1 = of_int (ss_count_left sp), n_2 = of_int (ss_count_right sp),
               rejected_left = 0, rejected_right = 0\<rparr>, temp st) of
        Inl e \<Rightarrow> Inl e
      | Inr (s, tmp) \<Rightarrow>
         (let (idx0, l0, r0) = lookup_loop tmp first_index 0 (nat index_count) first_index
                                 (indices st, 0, []);
              (idx1, l1, r1) = lookup_loop tmp first_index 1 (nat index_count) first_index
                                 (idx0, 0, []);
              (idx2, l2, r2) = lookup_loop tmp first_index 2 (nat index_count) first_index
                                 (idx1, 0, [])
          in if \<not> (l0 = l1 \<and> l1 = l2) then Inl (AssertFailed 273)
             else if \<not> (length r0 = length r1 \<and> length r1 = length r2) then Inl (AssertFailed 274)
             else if l0 \<noteq> ss_count_left sp - rejected_left s then Inl (AssertFailed 280)
             else if int (length r0) \<noteq> ss_count_right sp - rejected_right s then Inl (AssertFailed 281)
             else if \<not> (0 < l0 \<and> l0 < index_count) then Inl (AssertFailed 284)
             else if \<not> (0 < int (length r0) \<and> int (length r0) < index_count) then Inl (AssertFailed 285)
             else if \<not> (index_count \<le> l0 + int (length r0)) then Inl (AssertFailed 288)
             else Inr \<lparr>p_indices = idx2, p_temp = tmp, children_right = (r0, r1, r2),
                       n_left = l0, n_right = int (length r0),
                       child_aabb_left = aabb_left s, child_aabb_right = aabb_right s\<rparr>))"

section \<open>The SBVH builder: one node\<close>

text \<open>Lines 37 to 42: the surface area of the overlap of the two boxes of the object
  split, 0 when they do not overlap.\<close>

definition lamba :: "object_split \<Rightarrow> real" where
  "lamba obj =
     (let ov = overlap (os_aabb_left obj) (os_aabb_right obj)
      in if is_valid ov then surface_area ov else 0)"

text \<open>Line 45: \<^verbatim>\<open>const float alpha = 10e-5;\<close>\<close>

definition alpha :: float where
  "alpha = Fin (10 / 10 ^ 5)"

text \<open>Line 48: \<^verbatim>\<open>ratio = lamba * inv_root_surface_area\<close>.\<close>

definition ratio :: "object_split \<Rightarrow> float \<Rightarrow> float" where
  "ratio obj inv_root_surface_area = fmul (Fin (lamba obj)) inv_root_surface_area"

text \<open>Lines 53 to 60: the spatial split is computed when the ratio exceeds \<open>alpha\<close>;
  otherwise its variables stay as declared, the cost \<^verbatim>\<open>INFINITY\<close> and the rest
  uninitialised (\<open>None\<close>).\<close>

definition spatial_candidate ::
  "kernels \<Rightarrow> triangles \<Rightarrow> index_arrays \<Rightarrow> int \<Rightarrow> int \<Rightarrow> AABB \<Rightarrow> object_split \<Rightarrow> float \<Rightarrow>
   spatial_split option" where
  "spatial_candidate K tris idx first_index index_count box obj inv_root_surface_area =
     (if fgt (ratio obj inv_root_surface_area) alpha
      then Some (partition_spatial K tris idx first_index index_count box)
      else None)"

definition spatial_split_cost :: "spatial_split option \<Rightarrow> float" where
  "spatial_split_cost spatial = (case spatial of None \<Rightarrow> PInf | Some sp \<Rightarrow> ss_cost sp)"

text \<open>Line 64: \<^verbatim>\<open>node.aabb.surface_area() * float(index_count)\<close>.\<close>

definition parent_cost :: "AABB \<Rightarrow> int \<Rightarrow> float" where
  "parent_cost box index_count = Fin (surface_area box * of_int index_count)"

text \<open>Lines 62 to 71: whether the node becomes a leaf by the SAH test.\<close>

definition sah_leaf :: "kernels \<Rightarrow> AABB \<Rightarrow> int \<Rightarrow> float \<Rightarrow> float \<Rightarrow> bool" where
  "sah_leaf K box index_count object_split_cost spatial_cost \<longleftrightarrow>
     index_count \<le> max_primitives_in_leaf K \<and>
     fle (parent_cost box index_count) object_split_cost \<and>
     fle (parent_cost box index_count) spatial_cost"

text \<open>The cost of the split that line 92 chooses.\<close>

definition chosen_cost :: "float \<Rightarrow> float \<Rightarrow> float" where
  "chosen_cost object_split_cost spatial_cost =
     (if fle object_split_cost spatial_cost then object_split_cost else spatial_cost)"

text \<open>Lines 92 to 292: the object split is performed when its cost is at most the
  spatial cost, the spatial split otherwise.\<close>

definition perform_split ::
  "kernels \<Rightarrow> triangles \<Rightarrow> AABB \<Rightarrow> object_split \<Rightarrow> spatial_split option \<Rightarrow> int \<Rightarrow> int \<Rightarrow>
   builder_state \<Rightarrow> error + partition" where
  "perform_split K tris box obj spatial first_index index_count st =
     (if fle (os_cost obj) (spatial_split_cost spatial)
      then object_split_partition tris obj first_index index_count st
      else (case spatial of
              None \<Rightarrow> Inl Undefined
            | Some sp \<Rightarrow>
                spatial_split_partition (SBVH_BIN_COUNT K) tris box sp first_index index_count st))"

text \<open>
  What one call of \<^verbatim>\<open>build_sbvh\<close> does before it recurses: either the node is a
  leaf and the call returns its count, or the node is made interior, the range is
  split and the two child boxes are written (lines 11 to 295).
\<close>

datatype node_step =
  Leaf builder_state int
| Split builder_state "int list \<times> int list \<times> int list" int int

definition build_sbvh_node ::
  "kernels \<Rightarrow> triangles \<Rightarrow> int \<Rightarrow> int \<Rightarrow> int \<Rightarrow> float \<Rightarrow> builder_state \<Rightarrow> error + node_step" where
  "build_sbvh_node K tris node first_index index_count inv_root_surface_area st =
     (if index_count = 1 then Inr (Leaf (write_leaf node first_index index_count st) index_count)
      else case nd_aabb (nodes st node) of
        None \<Rightarrow> Inl Undefined
      | Some box \<Rightarrow>
         (let obj = partition_object K tris (indices st) first_index index_count box in
          if os_index obj = - 1 then Inl (AssertFailed 26)
          else if \<not> (fge (ratio obj inv_root_surface_area) (Fin 0) \<and>
                      fle (ratio obj inv_root_surface_area) (Fin 1)) then Inl (AssertFailed 50)
          else
           (let spatial = spatial_candidate K tris (indices st) first_index index_count box obj
                            inv_root_surface_area
            in if sah_leaf K box index_count (os_cost obj) (spatial_split_cost spatial)
               then Inr (Leaf (write_leaf node first_index index_count st) index_count)
               else if feq (os_cost obj) PInf \<and> feq (spatial_split_cost spatial) PInf
               then Inl (Aborted 73)
               else
                (let st1 = write_axis node (os_dimension obj) (reserve_children node st);
                     left = node_index st
                 in case perform_split K tris box obj spatial first_index index_count st1 of
                      Inl e \<Rightarrow> Inl e
                    | Inr p \<Rightarrow>
                        Inr (Split
                              (write_aabb (left + 1) (child_aabb_right p)
                                (write_aabb left (child_aabb_left p)
                                  (st1\<lparr>indices := p_indices p, temp := p_temp p\<rparr>)))
                              (children_right p) (n_left p) (n_right p))))))"

section \<open>The SBVH builder: recursion and entry point\<close>

text \<open>Lines 301 to 303: the three right buffers are copied behind the references the
  left subtree produced.\<close>

definition copy_right ::
  "index_arrays \<Rightarrow> int \<Rightarrow> int list \<times> int list \<times> int list \<Rightarrow> int \<Rightarrow> index_arrays" where
  "copy_right idx pos bufs n =
     (case bufs of (r0, r1, r2) \<Rightarrow>
        idx(0 := write_list (idx 0) pos (take (nat n) r0),
            1 := write_list (idx 1) pos (take (nat n) r1),
            2 := write_list (idx 2) pos (take (nat n) r2)))"

text \<open>
  \<^verbatim>\<open>SBVHBuilder::build_sbvh\<close>. The recursion of the source has no bound of its own, so
  the model takes fuel: \<open>None\<close> means the fuel ran out. \<open>node\<close> is the index of the
  node the source passes by reference; \<^verbatim>\<open>node.left\<close> is read from the node array at
  each of the two recursive calls, as the source does.
\<close>

fun build_sbvh ::
  "nat \<Rightarrow> kernels \<Rightarrow> triangles \<Rightarrow> int \<Rightarrow> int \<Rightarrow> int \<Rightarrow> float \<Rightarrow> builder_state \<Rightarrow>
   (error + builder_state \<times> int) option" where
  "build_sbvh 0 K tris node first_index index_count inv_root_surface_area st = None"
| "build_sbvh (Suc fuel) K tris node first_index index_count inv_root_surface_area st =
     (case build_sbvh_node K tris node first_index index_count inv_root_surface_area st of
        Inl e \<Rightarrow> Some (Inl e)
      | Inr (Leaf st' r) \<Rightarrow> Some (Inr (st', r))
      | Inr (Split st1 bufs nl nr) \<Rightarrow>
         (case nd_left (nodes st1 node) of
            None \<Rightarrow> Some (Inl Undefined)
          | Some left \<Rightarrow>
             (case build_sbvh fuel K tris left first_index nl inv_root_surface_area st1 of
                None \<Rightarrow> None
              | Some (Inl e) \<Rightarrow> Some (Inl e)
              | Some (Inr (st2, num_leaves_left)) \<Rightarrow>
                 (let st3 = st2\<lparr>indices :=
                              copy_right (indices st2) (first_index + num_leaves_left) bufs nr\<rparr>
                  in case nd_left (nodes st3 node) of
                       None \<Rightarrow> Some (Inl Undefined)
                     | Some left' \<Rightarrow>
                        (case build_sbvh fuel K tris (left' + 1) (first_index + num_leaves_left)
                                nr inv_root_surface_area st3 of
                           None \<Rightarrow> None
                         | Some (Inl e) \<Rightarrow> Some (Inl e)
                         | Some (Inr (st4, num_leaves_right)) \<Rightarrow>
                             Some (Inr (st4, num_leaves_left + num_leaves_right)))))))"

text \<open>The tree a build hands back: the node array, the reference array and the two
  counts.\<close>

record bvh =
  bvh_nodes :: "int \<Rightarrow> BVHNode"
  bvh_indices :: "int \<Rightarrow> int"
  bvh_index_count :: int
  bvh_node_count :: int

text \<open>
  \<^verbatim>\<open>SBVHBuilder::build\<close> (lines 315 to 333). \<open>idx\<close> and \<open>tmp\<close> are the builder's
  index arrays and lookup tables as \<^verbatim>\<open>init\<close>, which is not among the sources, left
  them; the node array starts unwritten.
\<close>

definition centre_key :: "triangles \<Rightarrow> int \<Rightarrow> int \<Rightarrow> real" where
  "centre_key tris dimension a = vec_index (get_center (tris a)) dimension"

definition SBVHBuilder_build ::
  "nat \<Rightarrow> kernels \<Rightarrow> triangles \<Rightarrow> index_arrays \<Rightarrow> (int \<Rightarrow> int \<Rightarrow> int) \<Rightarrow> int \<Rightarrow> (error + bvh) option" where
  "SBVHBuilder_build fuel K tris idx tmp triangle_count =
     (let sorted = idx(0 := std_sort K (centre_key tris 0) (idx 0) triangle_count,
                       1 := std_sort K (centre_key tris 1) (idx 1) triangle_count,
                       2 := std_sort K (centre_key tris 2) (idx 2) triangle_count);
          root_aabb = calculate_bounds K tris (sorted 0) 0 triangle_count;
          st0 = \<lparr>nodes = (\<lambda>k. blank)(0 := blank\<lparr>nd_aabb := Some root_aabb\<rparr>),
                 indices = sorted, temp = tmp, node_index = 2\<rparr>
      in case build_sbvh fuel K tris 0 0 triangle_count (frecip (surface_area root_aabb)) st0 of
           None \<Rightarrow> None
         | Some (Inl e) \<Rightarrow> Some (Inl e)
         | Some (Inr (st, r)) \<Rightarrow>
             if SBVH_OVERALLOCATION K * triangle_count < node_index st then Some (Inl (Aborted 330))
             else Some (Inr \<lparr>bvh_nodes = nodes st, bvh_indices = indices st 0,
                              bvh_index_count = r, bvh_node_count = node_index st\<rparr>))"

section \<open>The plain BVH builder\<close>

text \<open>
  What one call of the static \<^verbatim>\<open>build_bvh\<close> of \<^verbatim>\<open>BVHBuilder.cpp\<close> does before
  it recurses (lines 11 to 43). The two child slots are reserved in lines 21 and 22,
  before the SAH test of lines 28 to 35.
\<close>

datatype bvh_step =
  BLeaf builder_state
| BSplit builder_state int int

definition build_bvh_node ::
  "kernels \<Rightarrow> triangles \<Rightarrow> int \<Rightarrow> int \<Rightarrow> int \<Rightarrow> builder_state \<Rightarrow> bvh_step" where
  "build_bvh_node K tris node first_index index_count st =
     (let box = calculate_bounds K tris (indices st 0) first_index (first_index + index_count);
          st1 = write_aabb node box st
      in if index_count < 3 then BLeaf (write_leaf node first_index index_count st1)
         else
          (let st2 = reserve_children node st1;
               s = partition_sah K tris (indices st2) first_index index_count
           in if fge (sah_cost s) (parent_cost box index_count)
              then BLeaf (write_leaf node first_index index_count st2)
              else
               (let split = vec_index
                              (get_center (tris (indices st2 (sah_dimension s) (sah_index s))))
                              (sah_dimension s);
                    st3 = st2\<lparr>indices := split_indices K tris (indices st2) first_index
                                            index_count (sah_dimension s) (sah_index s) split\<rparr>;
                    st4 = write_axis node (sah_dimension s) st3
                in BSplit st4 (sah_index s - first_index)
                     (first_index + index_count - sah_index s))))"

text \<open>The static \<^verbatim>\<open>build_bvh\<close> (lines 10 to 47), with fuel as above; \<^verbatim>\<open>node.left\<close>
  is read from the node array at each of the two recursive calls.\<close>

fun build_bvh ::
  "nat \<Rightarrow> kernels \<Rightarrow> triangles \<Rightarrow> int \<Rightarrow> int \<Rightarrow> int \<Rightarrow> builder_state \<Rightarrow>
   (error + builder_state) option" where
  "build_bvh 0 K tris node first_index index_count st = None"
| "build_bvh (Suc fuel) K tris node first_index index_count st =
     (case build_bvh_node K tris node first_index index_count st of
        BLeaf st' \<Rightarrow> Some (Inr st')
      | BSplit st4 nl nr \<Rightarrow>
         (case nd_left (nodes st4 node) of
            None \<Rightarrow> Some (Inl Undefined)
          | Some left \<Rightarrow>
             (case build_bvh fuel K tris left first_index nl st4 of
                None \<Rightarrow> None
              | Some (Inl e) \<Rightarrow> Some (Inl e)
              | Some (Inr st5) \<Rightarrow>
                 (case nd_left (nodes st5 node) of
                    None \<Rightarrow> Some (Inl Undefined)
                  | Some left' \<Rightarrow>
                      build_bvh fuel K tris (left' + 1) (first_index + nl) nr st5))))"

text \<open>\<^verbatim>\<open>BVHBuilders::build_bvh\<close> (lines 49 to 87): the three index arrays start as the
  identity and are sorted by centroid; the node array is new.\<close>

definition BVHBuilders_build_bvh ::
  "nat \<Rightarrow> kernels \<Rightarrow> triangles \<Rightarrow> (int \<Rightarrow> int \<Rightarrow> int) \<Rightarrow> int \<Rightarrow> (error + bvh) option" where
  "BVHBuilders_build_bvh fuel K tris tmp triangle_count =
     (let sorted = (\<lambda>dimension. std_sort K (centre_key tris dimension) (\<lambda>i. i) triangle_count);
          st0 = \<lparr>nodes = (\<lambda>k. blank), indices = sorted, temp = tmp, node_index = 2\<rparr>
      in case build_bvh fuel K tris 0 0 triangle_count st0 of
           None \<Rightarrow> None
         | Some (Inl e) \<Rightarrow> Some (Inl e)
         | Some (Inr st) \<Rightarrow>
             if \<not> node_index st \<le> 2 * triangle_count then Some (Inl (AssertFailed 80))
             else Some (Inr \<lparr>bvh_nodes = nodes st, bvh_indices = indices st 0,
                              bvh_index_count = triangle_count, bvh_node_count = node_index st\<rparr>))"

section \<open>Reading results\<close>

text \<open>The references an index array holds at the \<open>k\<close> positions from \<open>i\<close> on.\<close>

primrec range_list :: "(int \<Rightarrow> int) \<Rightarrow> int \<Rightarrow> nat \<Rightarrow> int list" where
  "range_list a i 0 = []"
| "range_list a i (Suc k) = a i # range_list a (i + 1) k"

text \<open>Whether a call made its node interior, and the error a build ended with.\<close>

definition is_split :: "error + node_step \<Rightarrow> bool" where
  "is_split r = (case r of Inr (Split st bufs nl nr) \<Rightarrow> True | _ \<Rightarrow> False)"

definition is_bsplit :: "bvh_step \<Rightarrow> bool" where
  "is_bsplit r = (case r of BSplit st nl nr \<Rightarrow> True | _ \<Rightarrow> False)"

definition build_error :: "(error + 'a) option \<Rightarrow> error option" where
  "build_error r = (case r of Some (Inl e) \<Rightarrow> Some e | _ \<Rightarrow> None)"

definition build_result :: "(error + 'a) option \<Rightarrow> 'a option" where
  "build_result r = (case r of Some (Inr t) \<Rightarrow> Some t | _ \<Rightarrow> None)"

section \<open>Concrete inputs\<close>

text \<open>
  The theorems below are instantiated on small scenes. The kernels used there are
  simple stand-ins for the functions of \<^verbatim>\<open>BVHPartitions.h\<close>: the bounds of a range are
  the union of its primitives' boxes; the object split puts the first primitive of
  the x-sorted range to the left and the rest to the right and reports the SAH cost of
  that split; sorting leaves an array that is already sorted as it is.
\<close>

definition ex_bounds :: "triangles \<Rightarrow> (int \<Rightarrow> int) \<Rightarrow> int \<Rightarrow> int \<Rightarrow> AABB" where
  "ex_bounds tris a lo hi =
     (case range_list a lo (nat (hi - lo)) of
        [] \<Rightarrow> \<lparr>aabb_min = Vector3 1 1 1, aabb_max = Vector3 0 0 0\<rparr>
      | v # vs \<Rightarrow> foldl (\<lambda>b w. expand b (tri_aabb (tris w))) (tri_aabb (tris v)) vs)"

definition ex_partition_object ::
  "triangles \<Rightarrow> index_arrays \<Rightarrow> int \<Rightarrow> int \<Rightarrow> AABB \<Rightarrow> object_split" where
  "ex_partition_object tris idx first_index index_count box =
     (let l = ex_bounds tris (idx 0) first_index (first_index + 1);
          r = ex_bounds tris (idx 0) (first_index + 1) (first_index + index_count)
      in \<lparr>os_index = first_index + 1, os_dimension = 0,
          os_cost = Fin (surface_area l + surface_area r * of_int (index_count - 1)),
          os_aabb_left = l, os_aabb_right = r\<rparr>)"

definition ex_partition_sah :: "triangles \<Rightarrow> index_arrays \<Rightarrow> int \<Rightarrow> int \<Rightarrow> sah_split" where
  "ex_partition_sah tris idx first_index index_count =
     (let l = ex_bounds tris (idx 0) first_index (first_index + 1);
          r = ex_bounds tris (idx 0) (first_index + 1) (first_index + index_count)
      in \<lparr>sah_index = first_index + 1, sah_dimension = 0,
          sah_cost = Fin (surface_area l + surface_area r * of_int (index_count - 1))\<rparr>)"

text \<open>A spatial candidate along y for the scene \<open>ex_long\<close> below: the plane after bin
  25 of 256, the long triangle on both sides.\<close>

definition ex_spatial :: spatial_split where
  "ex_spatial =
     \<lparr>ss_index = 26, ss_dimension = 1, ss_cost = Fin 80,
      ss_aabb_left = \<lparr>aabb_min = Vector3 0 0 0, aabb_max = Vector3 10 (203 / 200) 1\<rparr>,
      ss_aabb_right = \<lparr>aabb_min = Vector3 0 (203 / 200) 0, aabb_max = Vector3 1 10 1\<rparr>,
      ss_count_left = 2, ss_count_right = 1\<rparr>"

definition ex_kernels :: kernels where
  "ex_kernels =
     \<lparr>partition_object = ex_partition_object,
      partition_spatial = (\<lambda>tris idx first_index index_count box. ex_spatial),
      partition_sah = ex_partition_sah,
      split_indices =
        (\<lambda>tris idx first_index index_count dimension split_index split d. idx dimension),
      calculate_bounds = ex_bounds,
      std_sort = (\<lambda>key a n. a),
      SBVH_BIN_COUNT = 256, SBVH_OVERALLOCATION = 4, max_primitives_in_leaf = 1\<rparr>"

definition ex_idx :: index_arrays where
  "ex_idx = (\<lambda>d i. i)"

definition ex_tmp :: "int \<Rightarrow> int \<Rightarrow> int" where
  "ex_tmp = (\<lambda>d i. 0)"

definition ex_state :: "AABB \<Rightarrow> index_arrays \<Rightarrow> builder_state" where
  "ex_state box idx =
     \<lparr>nodes = (\<lambda>k. blank)(0 := blank\<lparr>nd_aabb := Some box\<rparr>), indices = idx, temp = ex_tmp,
      node_index = 2\<rparr>"

text \<open>Unit triangles along the diagonal, ten apart: the identity is sorted on every
  axis.\<close>

definition ex_triangle :: "int \<Rightarrow> Triangle" where
  "ex_triangle i =
     \<lparr>position_0 = Vector3 (10 * of_int i) (10 * of_int i) (10 * of_int i),
      position_1 = Vector3 (10 * of_int i + 1) (10 * of_int i) (10 * of_int i),
      position_2 = Vector3 (10 * of_int i) (10 * of_int i + 1) (10 * of_int i),
      tri_aabb = \<lparr>aabb_min = Vector3 (10 * of_int i) (10 * of_int i) (10 * of_int i),
                  aabb_max = Vector3 (10 * of_int i + 1) (10 * of_int i + 1) (10 * of_int i)\<rparr>\<rparr>"

text \<open>Two long thin triangles with the boxes \<open>([0,0,0],[10,1,1])\<close> and
  \<open>([0,0,0],[1,10,1])\<close>; sorted by x the second comes first.\<close>

definition ex_long :: "int \<Rightarrow> Triangle" where
  "ex_long i =
     (if i = 0 then
        \<lparr>position_0 = Vector3 0 0 0, position_1 = Vector3 10 1 0, position_2 = Vector3 0 0 1,
         tri_aabb = \<lparr>aabb_min = Vector3 0 0 0, aabb_max = Vector3 10 1 1\<rparr>\<rparr>
      else
        \<lparr>position_0 = Vector3 0 0 0, position_1 = Vector3 1 10 0, position_2 = Vector3 0 0 1,
         tri_aabb = \<lparr>aabb_min = Vector3 0 0 0, aabb_max = Vector3 1 10 1\<rparr>\<rparr>)"

definition ex_long_idx :: index_arrays where
  "ex_long_idx = (\<lambda>d i. if d = 0 then 1 - i else i)"

definition ex_long_root :: AABB where
  "ex_long_root = \<lparr>aabb_min = Vector3 0 0 0, aabb_max = Vector3 10 10 1\<rparr>"

text \<open>The running values of the spatial split loop when it starts on \<open>ex_spatial\<close>.\<close>

definition ex_sides :: sides where
  "ex_sides =
     \<lparr>aabb_left = ss_aabb_left ex_spatial, aabb_right = ss_aabb_right ex_spatial,
      n_1 = 2, n_2 = 1, rejected_left = 0, rejected_right = 0\<rparr>"

text \<open>Coincident flat unit triangles, with a spatial candidate that halves their box
  along x.\<close>

definition ex_same :: "int \<Rightarrow> Triangle" where
  "ex_same i =
     \<lparr>position_0 = Vector3 0 0 0, position_1 = Vector3 1 0 0, position_2 = Vector3 0 1 0,
      tri_aabb = \<lparr>aabb_min = Vector3 0 0 0, aabb_max = Vector3 1 1 0\<rparr>\<rparr>"

definition ex_unit_root :: AABB where
  "ex_unit_root = \<lparr>aabb_min = Vector3 0 0 0, aabb_max = Vector3 1 1 0\<rparr>"

definition ex_halves :: spatial_split where
  "ex_halves =
     \<lparr>ss_index = 128, ss_dimension = 0, ss_cost = Fin 4,
      ss_aabb_left = \<lparr>aabb_min = Vector3 0 0 0, aabb_max = Vector3 (1 / 2) 1 0\<rparr>,
      ss_aabb_right = \<lparr>aabb_min = Vector3 (1 / 2) 0 0, aabb_max = Vector3 1 1 0\<rparr>,
      ss_count_left = 2, ss_count_right = 2\<rparr>"

definition ex_same_kernels :: kernels where
  "ex_same_kernels =
     ex_kernels\<lparr>partition_spatial := (\<lambda>tris idx first_index index_count box. ex_halves)\<rparr>"

text \<open>Degenerate triangles on the x axis: every box has the surface area 0.\<close>

definition ex_flat :: "int \<Rightarrow> Triangle" where
  "ex_flat i =
     \<lparr>position_0 = Vector3 (of_int i) 0 0, position_1 = Vector3 (of_int i + 1) 0 0,
      position_2 = Vector3 (of_int i + 1 / 2) 0 0,
      tri_aabb = \<lparr>aabb_min = Vector3 (of_int i) 0 0, aabb_max = Vector3 (of_int i + 1) 0 0\<rparr>\<rparr>"

text \<open>An object split whose two boxes are the unit cube, in a scene whose root box
  is 200 by 200 by 1.\<close>

definition ex_cubes :: object_split where
  "ex_cubes =
     \<lparr>os_index = 1, os_dimension = 0, os_cost = Fin 12,
      os_aabb_left = \<lparr>aabb_min = Vector3 0 0 0, aabb_max = Vector3 1 1 1\<rparr>,
      os_aabb_right = \<lparr>aabb_min = Vector3 0 0 0, aabb_max = Vector3 1 1 1\<rparr>\<rparr>"

definition ex_wide_root :: AABB where
  "ex_wide_root = \<lparr>aabb_min = Vector3 0 0 0, aabb_max = Vector3 200 200 1\<rparr>"

text \<open>The diagonal scene again: the box of its first two triangles, the kernels with
  \<open>max_primitives_in_leaf = 4\<close>, and the state in which the plain builder starts.\<close>

definition ex_pair_root :: AABB where
  "ex_pair_root = \<lparr>aabb_min = Vector3 0 0 0, aabb_max = Vector3 11 11 10\<rparr>"

definition ex_leaf4_kernels :: kernels where
  "ex_leaf4_kernels = ex_kernels\<lparr>max_primitives_in_leaf := 4\<rparr>"

definition ex_bvh_state :: builder_state where
  "ex_bvh_state = \<lparr>nodes = (\<lambda>k. blank), indices = ex_idx, temp = ex_tmp, node_index = 2\<rparr>"

section \<open>Trees in the node array\<close>

text \<open>
  \<open>subtree tight ns i lo hi first_index r\<close>: in the node array \<open>ns\<close> the node \<open>i\<close> is
  the root of a tree whose further nodes lie in the slots \<open>lo\<close> to \<open>hi - 1\<close> and whose
  leaves own the \<open>r\<close> references from \<open>first_index\<close> on. A leaf stores
  \<open>(first, count)\<close>, and \<open>r\<close> is its count. An interior node stores the index \<open>lo\<close>
  of its left child, which is larger than its own, and an axis tag; the right child
  is at \<open>lo + 1\<close>; the left child's further nodes follow from \<open>lo + 2\<close> up to some
  \<open>m\<close>, the right child's from \<open>m\<close> up to \<open>hi\<close>; the left child's references come
  first, and \<open>r\<close> is the sum of the two. With \<open>tight\<close> a leaf has no slots of its
  own (\<open>lo = hi\<close>), so that every slot from \<open>lo\<close> to \<open>hi - 1\<close> is a node of the tree;
  without it a leaf may keep slots that were reserved and never used.
\<close>

inductive subtree :: "bool \<Rightarrow> (int \<Rightarrow> BVHNode) \<Rightarrow> int \<Rightarrow> int \<Rightarrow> int \<Rightarrow> int \<Rightarrow> int \<Rightarrow> bool"
  for tight :: bool and ns :: "int \<Rightarrow> BVHNode" where
  leaf: "\<lbrakk>nd_left (ns i) = Some first_index; nd_count (ns i) = Some r; lo \<le> hi; tight \<longrightarrow> lo = hi\<rbrakk>
     \<Longrightarrow> subtree tight ns i lo hi first_index r"
| interior: "\<lbrakk>nd_left (ns i) = Some lo; nd_count (ns i) = Some (axis_tag d); i < lo;
      subtree tight ns lo (lo + 2) m first_index r1;
      subtree tight ns (lo + 1) m hi (first_index + r1) r2\<rbrakk>
     \<Longrightarrow> subtree tight ns i lo hi first_index (r1 + r2)"

text \<open>A node of a tree that a build returned.\<close>

definition node_at :: "int \<Rightarrow> bvh \<Rightarrow> BVHNode" where
  "node_at k t = bvh_nodes t k"

text \<open>Whether a build returned a tree.\<close>

definition returns :: "(error + 'a) option \<Rightarrow> bool" where
  "returns r = (case r of Some (Inr t) \<Rightarrow> True | _ \<Rightarrow> False)"

text \<open>
  The contract of the object partition functions, from the spec: they report a split
  position strictly inside the range (\<^verbatim>\<open>partition_sah\<close> is called on three references
  or more, \<^verbatim>\<open>partition_object\<close> on two or more).
\<close>

definition valid_partition_sah :: "kernels \<Rightarrow> bool" where
  "valid_partition_sah K \<longleftrightarrow>
     (\<forall>tris idx first_index index_count. 3 \<le> index_count \<longrightarrow>
        first_index < sah_index (partition_sah K tris idx first_index index_count) \<and>
        sah_index (partition_sah K tris idx first_index index_count) < first_index + index_count)"

definition valid_partition_object :: "kernels \<Rightarrow> bool" where
  "valid_partition_object K \<longleftrightarrow>
     (\<forall>tris idx first_index index_count box. 2 \<le> index_count \<longrightarrow>
        first_index < os_index (partition_object K tris idx first_index index_count box) \<and>
        os_index (partition_object K tris idx first_index index_count box)
          < first_index + index_count)"

section \<open>Partitioning a range\<close>

text \<open>
  The test of lines 102 to 120 on one reference of the range: the centre lies before
  the split plane, or on it with the reference found among the positions of the split
  dimension's array before the split position.
\<close>

definition goes_left_of ::
  "triangles \<Rightarrow> object_split \<Rightarrow> real \<Rightarrow> int \<Rightarrow> (int \<Rightarrow> int) \<Rightarrow> int \<Rightarrow> bool" where
  "goes_left_of tris obj split first_index a index \<longleftrightarrow>
     centre_key tris (os_dimension obj) index < split \<or>
     (centre_key tris (os_dimension obj) index = split \<and>
      scan_left tris a (os_dimension obj) split first_index index (os_index obj - 1))"

text \<open>
  Invariant 1 of the spec for one range: the three index arrays hold the same
  references in it.
\<close>

definition same_references :: "index_arrays \<Rightarrow> int \<Rightarrow> int \<Rightarrow> bool" where
  "same_references idx first_index index_count \<longleftrightarrow>
     mset (range_list (idx 1) first_index (nat index_count)) =
       mset (range_list (idx 0) first_index (nat index_count)) \<and>
     mset (range_list (idx 2) first_index (nat index_count)) =
       mset (range_list (idx 0) first_index (nat index_count))"

text \<open>
  The references a partition hands to the left child along one dimension (the first
  \<open>n_left\<close> entries of the range, written in place) and to the right child (the buffer
  \<^verbatim>\<open>children_right\<close> of that dimension).
\<close>

definition left_refs :: "partition \<Rightarrow> int \<Rightarrow> int \<Rightarrow> int list" where
  "left_refs p first_index dimension =
     range_list (p_indices p dimension) first_index (nat (n_left p))"

definition right_refs :: "partition \<Rightarrow> int \<Rightarrow> int list" where
  "right_refs p dimension =
     (case children_right p of
        (r0, r1, r2) \<Rightarrow> if dimension = 0 then r0 else if dimension = 1 then r1 else r2)"

text \<open>
  A primitive is covered by a spatial candidate when its box meets the node's box and
  the candidate's child box on each side its bins put it on: the left side when its
  first bin lies before the split bin, the right side when its last bin does not.
\<close>

definition covered :: "int \<Rightarrow> AABB \<Rightarrow> spatial_split \<Rightarrow> Triangle \<Rightarrow> bool" where
  "covered bin_count box sp triangle \<longleftrightarrow>
     (let t = overlap (tri_aabb triangle) box;
          d = ss_dimension sp
      in is_valid t \<and>
         (bin_of bin_count box d (vec_index (aabb_min t) d) < ss_index sp \<longrightarrow>
            is_valid (overlap t (ss_aabb_left sp))) \<and>
         (ss_index sp \<le> bin_of bin_count box d (vec_index (aabb_max t) d) \<longrightarrow>
            is_valid (overlap t (ss_aabb_right sp))))"

text \<open>
  A valid range for the object split: invariant 1, the split dimension's range sorted
  by centre without a repeated reference, and a split position strictly inside it.
\<close>

definition valid_object_range ::
  "triangles \<Rightarrow> object_split \<Rightarrow> int \<Rightarrow> int \<Rightarrow> index_arrays \<Rightarrow> bool" where
  "valid_object_range tris obj first_index index_count idx \<longleftrightarrow>
     same_references idx first_index index_count \<and>
     os_dimension obj \<in> {0, 1, 2} \<and>
     first_index < os_index obj \<and> os_index obj < first_index + index_count \<and>
     distinct (range_list (idx (os_dimension obj)) first_index (nat index_count)) \<and>
     sorted (map (centre_key tris (os_dimension obj))
               (range_list (idx (os_dimension obj)) first_index (nat index_count)))"

text \<open>
  A valid range for the spatial split: invariant 1, a valid node box, and a candidate
  that covers every primitive of the range.
\<close>

definition valid_spatial_range ::
  "int \<Rightarrow> triangles \<Rightarrow> AABB \<Rightarrow> spatial_split \<Rightarrow> int \<Rightarrow> int \<Rightarrow> index_arrays \<Rightarrow> bool" where
  "valid_spatial_range bin_count tris box sp first_index index_count idx \<longleftrightarrow>
     same_references idx first_index index_count \<and>
     ss_dimension sp \<in> {0, 1, 2} \<and> is_valid box \<and> 0 \<le> bin_count \<and>
     (\<forall>x \<in> set (range_list (idx (ss_dimension sp)) first_index (nat index_count)).
        covered bin_count box sp (tris x))"

text \<open>
  What the post-conditions of the partition say of its result: along every dimension
  each reference of the range is on a side, the references on the left are the same,
  those on the right are the same, and their numbers are \<open>n_left\<close> and \<open>n_right\<close>.
\<close>

definition assigned :: "partition \<Rightarrow> int \<Rightarrow> int \<Rightarrow> index_arrays \<Rightarrow> bool" where
  "assigned p first_index index_count idx \<longleftrightarrow>
     (\<forall>e \<in> {0, 1, 2}.
        set (range_list (idx e) first_index (nat index_count))
          \<subseteq> set (left_refs p first_index e) \<union> set (right_refs p e) \<and>
        mset (left_refs p first_index e) = mset (left_refs p first_index 0) \<and>
        mset (right_refs p e) = mset (right_refs p 0) \<and>
        int (length (left_refs p first_index e)) = n_left p \<and>
        int (length (right_refs p e)) = n_right p)"

section \<open>Floats and boxes\<close>

lemma not_fle_flt: "a \<noteq> NaN \<Longrightarrow> b \<noteq> NaN \<Longrightarrow> \<not> fle a b \<Longrightarrow> flt b a"
  by (cases a; cases b) auto

lemma chosen_cost_flt:
  assumes "a \<noteq> NaN" "b \<noteq> NaN" "\<not> (fle p a \<and> fle p b)" "p \<noteq> NaN"
  shows "flt (chosen_cost a b) p"
  using assms by (cases a; cases b; cases p) (auto simp: chosen_cost_def)

lemma ratio_Fin: "s \<noteq> 0 \<Longrightarrow> ratio obj (frecip s) = Fin (lamba obj / s)"
  by (simp add: ratio_def frecip_def)

lemma surface_area_nonneg: "0 \<le> surface_area b"
  by (auto simp: surface_area_def is_valid_def Let_def)

lemma surface_area_mono:
  assumes "is_valid a" and "inside a b"
  shows "surface_area a \<le> surface_area b"
proof -
  define ex where "ex = vx (aabb_max a) - vx (aabb_min a)"
  define ey where "ey = vy (aabb_max a) - vy (aabb_min a)"
  define ez where "ez = vz (aabb_max a) - vz (aabb_min a)"
  define fx where "fx = vx (aabb_max b) - vx (aabb_min b)"
  define fy where "fy = vy (aabb_max b) - vy (aabb_min b)"
  define fz where "fz = vz (aabb_max b) - vz (aabb_min b)"
  have e: "0 \<le> ex" "0 \<le> ey" "0 \<le> ez"
    using assms(1) by (auto simp: is_valid_def ex_def ey_def ez_def)
  have f: "ex \<le> fx" "ey \<le> fy" "ez \<le> fz"
    using assms(2) by (auto simp: inside_def ex_def ey_def ez_def fx_def fy_def fz_def)
  have vb: "is_valid b"
    using assms by (auto simp: is_valid_def inside_def)
  have "ex * ey \<le> fx * fy" "ey * ez \<le> fy * fz" "ez * ex \<le> fz * fx"
    using e f by (auto intro!: mult_mono)
  then have "2 * (ex * ey + ey * ez + ez * ex) \<le> 2 * (fx * fy + fy * fz + fz * fx)"
    by (intro mult_left_mono add_mono) simp_all
  then show ?thesis
    using assms(1) vb
    by (simp add: surface_area_def Let_def ex_def ey_def ez_def fx_def fy_def fz_def)
qed

lemma overlap_inside_left: "is_valid (overlap a b) \<Longrightarrow> inside (overlap a b) a"
  by (auto simp: is_valid_def overlap_def inside_def vec_min_def vec_max_def)

lemma inside_trans: "inside a b \<Longrightarrow> inside b c \<Longrightarrow> inside a c"
  by (auto simp: inside_def)

lemma lamba_nonneg: "0 \<le> lamba obj"
  by (simp add: lamba_def Let_def surface_area_nonneg)

lemma lamba_le_root:
  assumes "inside (os_aabb_left obj) root_aabb"
  shows "lamba obj \<le> surface_area root_aabb"
proof (cases "is_valid (overlap (os_aabb_left obj) (os_aabb_right obj))")
  case True
  then have "inside (overlap (os_aabb_left obj) (os_aabb_right obj)) root_aabb"
    using overlap_inside_left inside_trans assms by blast
  with True show ?thesis
    by (simp add: lamba_def Let_def surface_area_mono)
next
  case False
  then show ?thesis by (simp add: lamba_def Let_def surface_area_nonneg)
qed

lemma is_split_iff:
  "is_split r \<longleftrightarrow> (\<exists>st bufs nl nr. r = Inr (Split st bufs nl nr))"
  by (auto simp: is_split_def split: sum.splits node_step.splits)

lemma is_bsplit_iff: "is_bsplit r \<longleftrightarrow> (\<exists>st nl nr. r = BSplit st nl nr)"
  by (auto simp: is_bsplit_def split: bvh_step.splits)

lemma build_error_iff: "build_error r = Some e \<longleftrightarrow> r = Some (Inl e)"
  by (auto simp: build_error_def split: option.splits sum.splits)

lemma build_result_iff: "build_result r = Some t \<longleftrightarrow> r = Some (Inr t)"
  by (auto simp: build_result_def split: option.splits sum.splits)

section \<open>The axis tag\<close>

lemma tag_bits_axis_tag:
  "dimension \<in> {0, 1, 2} \<Longrightarrow> tag_bits (axis_tag dimension) = dimension + 1"
  by (auto simp: tag_bits_def axis_tag_def)

text \<open>
  Claim C1. The claim is that the tag of an interior node of the SBVH records the axis
  of the split that was chosen, the spatial split's when the spatial split wins. The
  source writes the tag in line 79, before line 92 chooses between the two splits, and
  always from the object split: whenever a call makes its node interior, the node's
  \<^verbatim>\<open>count\<close> is the tag of \<^verbatim>\<open>object_split_dimension\<close>, also when the spatial split is
  the one performed.
\<close>

theorem axis_tag_is_object_dimension:
  assumes "build_sbvh_node K tris node first_index index_count irsa st = Inr (Split st' bufs nl nr)"
    and "nd_aabb (nodes st node) = Some box"
  shows "nd_count (nodes st' node) =
           Some (axis_tag (os_dimension
             (partition_object K tris (indices st) first_index index_count box)))"
  using assms
  by (auto simp: build_sbvh_node_def Let_def write_axis_def reserve_children_def write_aabb_def
      split: if_splits sum.splits option.splits)

text \<open>On the two long triangles the object split is along x (dimension 0) and the
  spatial candidate along y (dimension 1) is the cheaper one and is performed; the
  node is tagged with the x axis.\<close>

theorem axis_tag_is_object_dimension_witness:
  "\<exists>st' bufs nl nr.
     build_sbvh_node ex_kernels ex_long 0 0 2 (frecip 240) (ex_state ex_long_root ex_long_idx)
       = Inr (Split st' bufs nl nr) \<and>
     nd_count (nodes st' 0) = Some (axis_tag 0) \<and>
     tag_bits (axis_tag 0) = 1 \<and>
     spatial_candidate ex_kernels ex_long ex_long_idx 0 2 ex_long_root
       (ex_partition_object ex_long ex_long_idx 0 2 ex_long_root) (frecip 240) = Some ex_spatial \<and>
     \<not> fle (os_cost (ex_partition_object ex_long ex_long_idx 0 2 ex_long_root)) (ss_cost ex_spatial) \<and>
     ss_dimension ex_spatial = 1"
proof -
  have "is_split (build_sbvh_node ex_kernels ex_long 0 0 2 (frecip 240)
          (ex_state ex_long_root ex_long_idx))"
    by code_simp
  then obtain st' bufs nl nr where
    s: "build_sbvh_node ex_kernels ex_long 0 0 2 (frecip 240) (ex_state ex_long_root ex_long_idx)
          = Inr (Split st' bufs nl nr)"
    unfolding is_split_iff by blast
  have box: "nd_aabb (nodes (ex_state ex_long_root ex_long_idx) 0) = Some ex_long_root"
    by (simp add: ex_state_def)
  have d: "os_dimension (partition_object ex_kernels ex_long
             (indices (ex_state ex_long_root ex_long_idx)) 0 2 ex_long_root) = 0"
    by (simp add: ex_kernels_def ex_partition_object_def Let_def)
  have c: "nd_count (nodes st' 0) = Some (axis_tag 0)"
    using axis_tag_is_object_dimension [OF s box] d by simp
  have t: "tag_bits (axis_tag 0) = 1"
    using tag_bits_axis_tag [of 0] by simp
  have sp: "spatial_candidate ex_kernels ex_long ex_long_idx 0 2 ex_long_root
       (ex_partition_object ex_long ex_long_idx 0 2 ex_long_root) (frecip 240) = Some ex_spatial"
    by code_simp
  have n: "\<not> fle (os_cost (ex_partition_object ex_long ex_long_idx 0 2 ex_long_root))
             (ss_cost ex_spatial)"
    by code_simp
  have "ss_dimension ex_spatial = 1"
    by (simp add: ex_spatial_def)
  with s c t sp n show ?thesis by blast
qed

section \<open>The gate of the spatial split\<close>




section \<open>The ratio of overlap and root\<close>




section \<open>Unsplitting a straddler\<close>

lemma unsplit_cases:
  "unsplit t s = (gl, gr, s') \<Longrightarrow>
     (c_1 t s < c_split s \<and> c_1 t s \<le> c_2 t s \<and> (gl, gr, s') = remove_from_right t s) \<or>
     (c_2 t s < c_split s \<and> c_2 t s < c_1 t s \<and> (gl, gr, s') = remove_from_left t s) \<or>
     (c_split s \<le> c_1 t s \<and> c_split s \<le> c_2 t s \<and> (gl, gr, s') = (True, True, s))"
  by (auto simp: unsplit_def split: if_splits)

lemma classify_straddler:
  assumes "classify bin_count box sp triangle s = Inr (gl, gr, s')"
    and "bin_of bin_count box (ss_dimension sp)
           (vec_index (aabb_min (overlap (tri_aabb triangle) box)) (ss_dimension sp)) < ss_index sp"
    and "ss_index sp \<le> bin_of bin_count box (ss_dimension sp)
           (vec_index (aabb_max (overlap (tri_aabb triangle) box)) (ss_dimension sp))"
    and "is_valid (overlap (overlap (tri_aabb triangle) box) (aabb_left s))"
    and "is_valid (overlap (overlap (tri_aabb triangle) box) (aabb_right s))"
  shows "unsplit (overlap (tri_aabb triangle) box) s = (gl, gr, s')"
  using assms
  by (auto simp: classify_def Let_def split: if_splits prod.splits)



section \<open>Split cost and leaf cost\<close>

lemma build_sbvh_node_Split_not_leaf:
  assumes "build_sbvh_node K tris node first_index index_count irsa st = Inr (Split st' bufs nl nr)"
    and "nd_aabb (nodes st node) = Some box"
  shows "\<not> sah_leaf K box index_count
            (os_cost (partition_object K tris (indices st) first_index index_count box))
            (spatial_split_cost (spatial_candidate K tris (indices st) first_index index_count box
               (partition_object K tris (indices st) first_index index_count box) irsa))"
  using assms
  by (auto simp: build_sbvh_node_def Let_def split: if_splits sum.splits option.splits)

text \<open>
  Claim C9, as the source has it. In the SBVH builder the leaf cost is compared with
  the split costs only when \<open>index_count \<le> max_primitives_in_leaf\<close>: an interior node
  with that few references has a chosen split strictly cheaper than the leaf; a node
  with more is split without any comparison. In the plain BVH builder every interior
  node has a split strictly cheaper than the leaf. (The costs the partition functions
  report are taken not to be NaN.)
\<close>

theorem chosen_split_cheaper_than_leaf:
  "(build_sbvh_node K tris node first_index index_count irsa st = Inr (Split st' bufs nl nr) \<and>
    nd_aabb (nodes st node) = Some box \<and>
    index_count \<le> max_primitives_in_leaf K \<and>
    obj = partition_object K tris (indices st) first_index index_count box \<and>
    spatial = spatial_candidate K tris (indices st) first_index index_count box obj irsa \<and>
    os_cost obj \<noteq> NaN \<and> spatial_split_cost spatial \<noteq> NaN
    \<longrightarrow> flt (chosen_cost (os_cost obj) (spatial_split_cost spatial))
            (parent_cost box index_count)) \<and>
   (build_bvh_node K2 tris2 node2 first2 count2 st2 = BSplit st2' nl2 nr2 \<and>
    s = partition_sah K2 tris2 (indices st2) first2 count2 \<and>
    sah_cost s \<noteq> NaN
    \<longrightarrow> flt (sah_cost s)
            (parent_cost (calculate_bounds K2 tris2 (indices st2 0) first2 (first2 + count2))
               count2))"
proof (intro conjI impI)
  assume a: "build_sbvh_node K tris node first_index index_count irsa st = Inr (Split st' bufs nl nr) \<and>
    nd_aabb (nodes st node) = Some box \<and>
    index_count \<le> max_primitives_in_leaf K \<and>
    obj = partition_object K tris (indices st) first_index index_count box \<and>
    spatial = spatial_candidate K tris (indices st) first_index index_count box obj irsa \<and>
    os_cost obj \<noteq> NaN \<and> spatial_split_cost spatial \<noteq> NaN"
  then have "\<not> sah_leaf K box index_count (os_cost obj) (spatial_split_cost spatial)"
    using build_sbvh_node_Split_not_leaf by blast
  with a have "\<not> (fle (parent_cost box index_count) (os_cost obj) \<and>
                  fle (parent_cost box index_count) (spatial_split_cost spatial))"
    by (simp add: sah_leaf_def)
  with a show "flt (chosen_cost (os_cost obj) (spatial_split_cost spatial))
            (parent_cost box index_count)"
    by (intro chosen_cost_flt) (auto simp: parent_cost_def)
next
  assume b: "build_bvh_node K2 tris2 node2 first2 count2 st2 = BSplit st2' nl2 nr2 \<and>
    s = partition_sah K2 tris2 (indices st2) first2 count2 \<and>
    sah_cost s \<noteq> NaN"
  then have "\<not> fge (sah_cost s)
       (parent_cost (calculate_bounds K2 tris2 (indices st2 0) first2 (first2 + count2)) count2)"
    by (auto simp: build_bvh_node_def Let_def reserve_children_def write_aabb_def split: if_splits)
  with b show "flt (sah_cost s)
       (parent_cost (calculate_bounds K2 tris2 (indices st2 0) first2 (first2 + count2)) count2)"
    by (intro not_fle_flt) (auto simp: parent_cost_def fge_def)
qed

text \<open>Two triangles of the diagonal scene with \<open>max_primitives_in_leaf = 4\<close> in the
  SBVH builder, three in the plain builder: both roots are split, and the split is
  cheaper than the leaf.\<close>

theorem chosen_split_cheaper_than_leaf_witness:
  "is_split (build_sbvh_node ex_leaf4_kernels ex_triangle 0 0 2 (frecip (surface_area ex_pair_root))
      (ex_state ex_pair_root ex_idx)) \<and>
   2 \<le> max_primitives_in_leaf ex_leaf4_kernels \<and>
   flt (chosen_cost (os_cost (ex_partition_object ex_triangle ex_idx 0 2 ex_pair_root)) PInf)
       (parent_cost ex_pair_root 2) \<and>
   is_bsplit (build_bvh_node ex_kernels ex_triangle 0 0 3 ex_bvh_state) \<and>
   flt (sah_cost (ex_partition_sah ex_triangle ex_idx 0 3))
       (parent_cost (ex_bounds ex_triangle (ex_idx 0) 0 3) 3)"
proof -
  have i: "is_split (build_sbvh_node ex_leaf4_kernels ex_triangle 0 0 2
             (frecip (surface_area ex_pair_root)) (ex_state ex_pair_root ex_idx))"
    by code_simp
  then obtain st' bufs nl nr where
    s: "build_sbvh_node ex_leaf4_kernels ex_triangle 0 0 2 (frecip (surface_area ex_pair_root))
          (ex_state ex_pair_root ex_idx) = Inr (Split st' bufs nl nr)"
    unfolding is_split_iff by blast
  have j: "is_bsplit (build_bvh_node ex_kernels ex_triangle 0 0 3 ex_bvh_state)"
    by code_simp
  then obtain st2' nl2 nr2 where
    b: "build_bvh_node ex_kernels ex_triangle 0 0 3 ex_bvh_state = BSplit st2' nl2 nr2"
    unfolding is_bsplit_iff by blast
  have box: "nd_aabb (nodes (ex_state ex_pair_root ex_idx) 0) = Some ex_pair_root"
    by (simp add: ex_state_def)
  have m: "2 \<le> max_primitives_in_leaf ex_leaf4_kernels"
    by (simp add: ex_leaf4_kernels_def)
  have po: "partition_object ex_leaf4_kernels ex_triangle (indices (ex_state ex_pair_root ex_idx))
              0 2 ex_pair_root = ex_partition_object ex_triangle ex_idx 0 2 ex_pair_root"
    by (simp add: ex_leaf4_kernels_def ex_kernels_def ex_state_def)
  have sp: "spatial_split_cost (spatial_candidate ex_leaf4_kernels ex_triangle
              (indices (ex_state ex_pair_root ex_idx)) 0 2 ex_pair_root
              (ex_partition_object ex_triangle ex_idx 0 2 ex_pair_root)
              (frecip (surface_area ex_pair_root))) = PInf"
    by code_simp
  have n1: "os_cost (ex_partition_object ex_triangle ex_idx 0 2 ex_pair_root) \<noteq> NaN"
    by (simp add: ex_partition_object_def Let_def)
  have ps: "partition_sah ex_kernels ex_triangle (indices ex_bvh_state) 0 3 =
              ex_partition_sah ex_triangle ex_idx 0 3"
    by (simp add: ex_kernels_def ex_bvh_state_def)
  have n2: "sah_cost (ex_partition_sah ex_triangle ex_idx 0 3) \<noteq> NaN"
    by (simp add: ex_partition_sah_def Let_def)
  have cb: "calculate_bounds ex_kernels ex_triangle (indices ex_bvh_state 0) 0 (0 + 3) =
              ex_bounds ex_triangle (ex_idx 0) 0 3"
    by (simp add: ex_kernels_def ex_bvh_state_def)
  note t = chosen_split_cheaper_than_leaf
    [where K = ex_leaf4_kernels and tris = ex_triangle and node = 0 and first_index = 0
       and index_count = 2 and irsa = "frecip (surface_area ex_pair_root)"
       and st = "ex_state ex_pair_root ex_idx" and st' = st' and bufs = bufs and nl = nl
       and nr = nr and box = ex_pair_root
       and obj = "ex_partition_object ex_triangle ex_idx 0 2 ex_pair_root"
       and spatial = "spatial_candidate ex_leaf4_kernels ex_triangle
              (indices (ex_state ex_pair_root ex_idx)) 0 2 ex_pair_root
              (ex_partition_object ex_triangle ex_idx 0 2 ex_pair_root)
              (frecip (surface_area ex_pair_root))"
       and ?K2.0 = ex_kernels and ?tris2.0 = ex_triangle and ?node2.0 = 0 and ?first2.0 = 0
       and ?count2.0 = 3 and ?st2.0 = ex_bvh_state and st2' = st2' and ?nl2.0 = nl2
       and ?nr2.0 = nr2 and s = "ex_partition_sah ex_triangle ex_idx 0 3"]
  from t s box m po sp n1 have c1:
    "flt (chosen_cost (os_cost (ex_partition_object ex_triangle ex_idx 0 2 ex_pair_root)) PInf)
       (parent_cost ex_pair_root 2)"
    by simp
  from t b ps n2 cb have c2:
    "flt (sah_cost (ex_partition_sah ex_triangle ex_idx 0 3))
       (parent_cost (ex_bounds ex_triangle (ex_idx 0) 0 3) 3)"
    by simp
  from i m c1 j c2 show ?thesis
    by blast
qed

text \<open>The claim takes every interior node outside the leaf test to have a split
  cheaper than the leaf. Two coincident triangles with \<open>max_primitives_in_leaf = 1\<close>:
  the node is split without the test, and its split costs what the leaf costs.\<close>

theorem chosen_split_cheaper_than_leaf_counterexample:
  "is_split (build_sbvh_node ex_same_kernels ex_same 0 0 2 (frecip (surface_area ex_unit_root))
      (ex_state ex_unit_root ex_idx)) \<and>
   max_primitives_in_leaf ex_same_kernels < 2 \<and>
   spatial_candidate ex_same_kernels ex_same ex_idx 0 2 ex_unit_root
     (partition_object ex_same_kernels ex_same ex_idx 0 2 ex_unit_root)
     (frecip (surface_area ex_unit_root)) = Some ex_halves \<and>
   \<not> flt (chosen_cost
            (os_cost (partition_object ex_same_kernels ex_same ex_idx 0 2 ex_unit_root))
            (ss_cost ex_halves))
          (parent_cost ex_unit_root 2)"
  by code_simp

section \<open>The layout of the node array\<close>

lemma subtree_range: "subtree tight ns i lo hi f r \<Longrightarrow> lo \<le> hi"
  by (induction rule: subtree.induct) auto

lemma subtree_cong:
  assumes "subtree tight ns i lo hi f r"
    and "\<And>k. k = i \<or> (lo \<le> k \<and> k < hi) \<Longrightarrow> ns' k = ns k"
  shows "subtree tight ns' i lo hi f r"
  using assms
proof (induction rule: subtree.induct)
  case (leaf i first_index r lo hi)
  then show ?case by (auto intro: subtree.leaf)
next
  case (interior i lo d m first_index r1 hi r2)
  have a: "lo + 2 \<le> m" using interior.hyps(4) by (rule subtree_range)
  have b: "m \<le> hi" using interior.hyps(5) by (rule subtree_range)
  have l: "subtree tight ns' lo (lo + 2) m first_index r1"
    using a b by (intro interior.IH(1) interior.prems) auto
  have r: "subtree tight ns' (lo + 1) m hi (first_index + r1) r2"
    using a b by (intro interior.IH(2) interior.prems) auto
  have "ns' i = ns i" by (simp add: interior.prems)
  with interior.hyps(1-3) l r show ?case
    by (auto intro: subtree.interior)
qed

lemma subtree_written:
  "subtree True ns i lo hi f r \<Longrightarrow> lo \<le> k \<Longrightarrow> k < hi \<Longrightarrow> nd_count (ns k) \<noteq> None"
proof (induction arbitrary: k rule: subtree.induct)
  case (leaf i first_index r lo hi)
  then show ?case by simp
next
  case (interior i lo d m first_index r1 hi r2)
  have cl: "nd_count (ns lo) \<noteq> None"
    using interior.hyps(4) by (cases rule: subtree.cases) auto
  have cr: "nd_count (ns (lo + 1)) \<noteq> None"
    using interior.hyps(5) by (cases rule: subtree.cases) auto
  consider "k = lo" | "k = lo + 1" | "lo + 2 \<le> k \<and> k < m" | "m \<le> k \<and> k < hi"
    using interior.prems by linarith
  then show ?case
    using cl cr interior.IH by cases auto
qed

lemma subtree_weaken: "subtree True ns i lo hi f r \<Longrightarrow> subtree tight ns i lo hi f r"
  by (induction rule: subtree.induct) (auto intro: subtree.intros)

lemma object_split_partition_counts:
  "object_split_partition tris obj first_index index_count st = Inr p \<Longrightarrow>
     n_left p + n_right p = index_count \<and> first_index + n_left p = os_index obj"
  by (auto simp: object_split_partition_def Let_def split: prod.splits if_splits)

lemma spatial_split_partition_counts:
  "spatial_split_partition bins tris box sp first_index index_count st = Inr p \<Longrightarrow>
     index_count \<le> n_left p + n_right p \<and> 0 < n_left p \<and> n_left p < index_count \<and>
     0 < n_right p \<and> n_right p < index_count"
  by (auto simp: spatial_split_partition_def Let_def split: sum.splits prod.splits if_splits)

lemma build_sbvh_node_Leaf:
  "build_sbvh_node K tris node first_index index_count irsa st = Inr (Leaf st' r) \<Longrightarrow>
     st' = write_leaf node first_index index_count st \<and> r = index_count"
  by (auto simp: build_sbvh_node_def Let_def split: if_splits option.splits sum.splits)

lemma perform_split_counts:
  "perform_split K tris box obj spatial first_index index_count st = Inr p \<Longrightarrow>
     index_count \<le> n_left p + n_right p"
  by (auto simp: perform_split_def
      dest: object_split_partition_counts spatial_split_partition_counts
      split: if_splits option.splits)

lemma build_sbvh_node_Split:
  assumes "build_sbvh_node K tris node first_index index_count irsa st = Inr (Split st1 bufs nl nr)"
  shows "\<exists>d (p :: partition). st1 = write_aabb (node_index st + 1) (child_aabb_right p)
                  (write_aabb (node_index st) (child_aabb_left p)
                     ((write_axis node d (reserve_children node st))
                        \<lparr>indices := p_indices p, temp := p_temp p\<rparr>)) \<and>
               nl = n_left p \<and> nr = n_right p \<and> bufs = children_right p \<and>
               index_count \<le> nl + nr \<and> index_count \<noteq> 1"
proof -
  from assms obtain box obj spatial p where
    p: "perform_split K tris box obj spatial first_index index_count
          (write_axis node (os_dimension obj) (reserve_children node st)) = Inr p"
    and s: "st1 = write_aabb (node_index st + 1) (child_aabb_right p)
                  (write_aabb (node_index st) (child_aabb_left p)
                     ((write_axis node (os_dimension obj) (reserve_children node st))
                        \<lparr>indices := p_indices p, temp := p_temp p\<rparr>))"
    and n: "nl = n_left p" "nr = n_right p" "bufs = children_right p" "index_count \<noteq> 1"
    by (auto simp: build_sbvh_node_def Let_def split: if_splits option.splits sum.splits)
  have c: "index_count \<le> nl + nr"
    using perform_split_counts [OF p] n by simp
  with s n show ?thesis
    by blast
qed

lemma split_state:
  assumes "st1 = write_aabb (node_index st + 1) br
                  (write_aabb (node_index st) bl
                     ((write_axis node d (reserve_children node st))
                        \<lparr>indices := pidx, temp := ptmp\<rparr>))"
    and "node < node_index st"
  shows "node_index st1 = node_index st + 2"
    and "nd_left (nodes st1 node) = Some (node_index st)"
    and "nd_count (nodes st1 node) = Some (axis_tag d)"
    and "nd_aabb (nodes st1 node) = nd_aabb (nodes st node)"
    and "\<And>k. k \<noteq> node \<Longrightarrow> k \<noteq> node_index st \<Longrightarrow> k \<noteq> node_index st + 1 \<Longrightarrow>
           nodes st1 k = nodes st k"
  using assms
  by (simp_all add: write_aabb_def write_axis_def reserve_children_def)

lemma write_leaf_state:
  "node_index (write_leaf node f c st) = node_index st"
  "nd_left (nodes (write_leaf node f c st) node) = Some f"
  "nd_count (nodes (write_leaf node f c st) node) = Some c"
  "nd_aabb (nodes (write_leaf node f c st) node) = nd_aabb (nodes st node)"
  "k \<noteq> node \<Longrightarrow> nodes (write_leaf node f c st) k = nodes st k"
  by (simp_all add: write_leaf_def)

lemma build_sbvh_subtree:
  "build_sbvh fuel K tris node f c irsa st = Some (Inr (st', r)) \<Longrightarrow> node < node_index st \<Longrightarrow>
     node_index st \<le> node_index st' \<and> c \<le> r \<and>
     subtree True (nodes st') node (node_index st) (node_index st') f r \<and>
     nd_aabb (nodes st' node) = nd_aabb (nodes st node) \<and>
     (\<forall>k. k \<noteq> node \<and> (k < node_index st \<or> node_index st' \<le> k) \<longrightarrow> nodes st' k = nodes st k)"
proof (induction fuel arbitrary: node f c st st' r)
  case 0
  then show ?case by simp
next
  case (Suc fuel)
  show ?case
  proof (cases "build_sbvh_node K tris node f c irsa st")
    case (Inl e)
    with Suc.prems show ?thesis by simp
  next
    case (Inr step)
    show ?thesis
    proof (cases step)
      case (Leaf st2 r2)
      with Inr Suc.prems have e: "st' = st2" "r = r2" by auto
      from Inr Leaf build_sbvh_node_Leaf
      have l: "st2 = write_leaf node f c st" "r2 = c" by blast+
      have "subtree True (nodes st') node (node_index st) (node_index st) f c"
        using e l by (intro subtree.leaf) (simp_all add: write_leaf_state)
      then show ?thesis
        using e l by (simp add: write_leaf_state)
    next
      case (Split st1 bufs nl nr)
      define l where "l = node_index st"
      from build_sbvh_node_Split Inr Split obtain d and p :: partition where
        st1: "st1 = write_aabb (node_index st + 1) (child_aabb_right p)
                  (write_aabb (node_index st) (child_aabb_left p)
                     ((write_axis node d (reserve_children node st))
                        \<lparr>indices := p_indices p, temp := p_temp p\<rparr>))"
        and c: "c \<le> nl + nr"
        by blast
      note s1 = split_state [OF st1 Suc.prems(2), folded l_def]
      from Inr Split Suc.prems(1) s1(2) obtain st2 rl where
        b1: "build_sbvh fuel K tris l f nl irsa st1 = Some (Inr (st2, rl))"
        by (auto split: option.splits sum.splits)
      have "l < node_index st1" using s1(1) by simp
      from Suc.IH [OF b1 this] s1(1)
      have i1: "l + 2 \<le> node_index st2" "nl \<le> rl"
        "subtree True (nodes st2) l (l + 2) (node_index st2) f rl"
        "\<And>k. k \<noteq> l \<Longrightarrow> k < l + 2 \<or> node_index st2 \<le> k \<Longrightarrow> nodes st2 k = nodes st1 k"
        by auto
      define m where "m = node_index st2"
      define st3 where
        "st3 = st2\<lparr>indices := copy_right (indices st2) (f + rl) bufs nr\<rparr>"
      have n3: "nodes st3 = nodes st2" "node_index st3 = m"
        by (simp_all add: st3_def m_def)
      have nn: "node < l" using Suc.prems(2) by (simp add: l_def)
      have n2: "nodes st2 node = nodes st1 node"
        using nn by (intro i1(4)) auto
      from Inr Split Suc.prems(1) s1(2) b1 n2 n3 obtain st4 rr where
        b2: "build_sbvh fuel K tris (l + 1) (f + rl) nr irsa st3 = Some (Inr (st4, rr))"
        and res: "st' = st4" "r = rl + rr"
        by (auto simp: st3_def Let_def split: option.splits sum.splits)
      have "l + 1 < node_index st3" using i1(1) n3 m_def by simp
      from Suc.IH [OF b2 this] n3
      have i2: "m \<le> node_index st4" "nr \<le> rr"
        "subtree True (nodes st4) (l + 1) m (node_index st4) (f + rl) rr"
        "\<And>k. k \<noteq> l + 1 \<Longrightarrow> k < m \<or> node_index st4 \<le> k \<Longrightarrow> nodes st4 k = nodes st2 k"
        by auto
      have left: "subtree True (nodes st4) l (l + 2) m f rl"
        using i1(3) unfolding m_def [symmetric]
        by (rule subtree_cong) (use i1(1) m_def in \<open>auto intro!: i2(4)\<close>)
      have n4: "nodes st4 node = nodes st1 node"
        using nn i1(1) m_def n2 by (subst i2(4)) auto
      have tree: "subtree True (nodes st4) node l (node_index st4) f (rl + rr)"
        using left i2(3) nn s1(2,3) n4
        by (intro subtree.interior [where d = d and m = m]) simp_all
      have frame: "nodes st4 k = nodes st k" if "k \<noteq> node" "k < l \<or> node_index st4 \<le> k" for k
      proof -
        have "nodes st4 k = nodes st2 k"
          using that i2(1) i1(1) m_def by (intro i2(4)) auto
        also have "\<dots> = nodes st1 k"
          using that i2(1) i1(1) m_def by (intro i1(4)) auto
        also have "\<dots> = nodes st k"
          using that i2(1) i1(1) m_def by (intro s1(5)) auto
        finally show ?thesis .
      qed
      show ?thesis
        using res tree frame n4 s1(4) i1(1,2) i2(1,2) c m_def l_def
        by auto
    qed
  qed
qed

lemma build_bvh_node_BLeaf:
  assumes "build_bvh_node K tris node f c st = BLeaf st'"
  shows "\<exists>box. (st' = write_leaf node f c (write_aabb node box st) \<and> c < 3) \<or>
               (st' = write_leaf node f c (reserve_children node (write_aabb node box st)) \<and> 3 \<le> c)"
  using assms
  by (auto simp: build_bvh_node_def Let_def split: if_splits)

lemma build_bvh_node_BSplit:
  assumes "build_bvh_node K tris node f c st = BSplit st4 nl nr"
  shows "\<exists>box d idx'. st4 = write_axis node d
                          ((reserve_children node (write_aabb node box st))\<lparr>indices := idx'\<rparr>) \<and>
            nl = sah_index (partition_sah K tris (indices st) f c) - f \<and>
            nr = f + c - sah_index (partition_sah K tris (indices st) f c) \<and> 3 \<le> c"
  using assms
  by (auto simp: build_bvh_node_def Let_def reserve_children_def write_aabb_def split: if_splits)

lemma bvh_leaf_state:
  "node_index (write_leaf node f c (write_aabb node box st)) = node_index st"
  "node_index (write_leaf node f c (reserve_children node (write_aabb node box st))) = node_index st + 2"
  "nd_left (nodes (write_leaf node f c st0) node) = Some f"
  "nd_count (nodes (write_leaf node f c st0) node) = Some c"
  "k \<noteq> node \<Longrightarrow> nodes (write_leaf node f c (write_aabb node box st)) k = nodes st k"
  "k \<noteq> node \<Longrightarrow> nodes (write_leaf node f c (reserve_children node (write_aabb node box st))) k = nodes st k"
  by (simp_all add: write_leaf_def write_aabb_def reserve_children_def)

lemma bvh_split_state:
  assumes "st4 = write_axis node d ((reserve_children node (write_aabb node box st))\<lparr>indices := idx'\<rparr>)"
  shows "node_index st4 = node_index st + 2"
    and "nd_left (nodes st4 node) = Some (node_index st)"
    and "nd_count (nodes st4 node) = Some (axis_tag d)"
    and "\<And>k. k \<noteq> node \<Longrightarrow> nodes st4 k = nodes st k"
  using assms
  by (simp_all add: write_aabb_def write_axis_def reserve_children_def)

lemma build_bvh_subtree:
  "build_bvh fuel K tris node f c st = Some (Inr st') \<Longrightarrow> node < node_index st \<Longrightarrow>
     node_index st \<le> node_index st' \<and>
     subtree False (nodes st') node (node_index st) (node_index st') f c \<and>
     (\<forall>k. k \<noteq> node \<and> (k < node_index st \<or> node_index st' \<le> k) \<longrightarrow> nodes st' k = nodes st k)"
proof (induction fuel arbitrary: node f c st st')
  case 0
  then show ?case by simp
next
  case (Suc fuel)
  show ?case
  proof (cases "build_bvh_node K tris node f c st")
    case (BLeaf st2)
    with Suc.prems have e: "st' = st2" by simp
    from build_bvh_node_BLeaf [OF BLeaf] obtain box where
      "(st2 = write_leaf node f c (write_aabb node box st) \<and> c < 3) \<or>
       (st2 = write_leaf node f c (reserve_children node (write_aabb node box st)) \<and> 3 \<le> c)"
      by blast
    then show ?thesis
    proof
      assume a: "st2 = write_leaf node f c (write_aabb node box st) \<and> c < 3"
      have "subtree False (nodes st') node (node_index st) (node_index st) f c"
        using e a by (intro subtree.leaf) (simp_all add: bvh_leaf_state)
      then show ?thesis using e a by (simp add: bvh_leaf_state)
    next
      assume a: "st2 = write_leaf node f c (reserve_children node (write_aabb node box st)) \<and> 3 \<le> c"
      have "subtree False (nodes st') node (node_index st) (node_index st + 2) f c"
        using e a by (intro subtree.leaf) (simp_all add: bvh_leaf_state)
      then show ?thesis using e a by (simp add: bvh_leaf_state)
    qed
  next
    case (BSplit st4 nl nr)
    define l where "l = node_index st"
    from build_bvh_node_BSplit [OF BSplit] obtain box d idx' where
      st4: "st4 = write_axis node d
                    ((reserve_children node (write_aabb node box st))\<lparr>indices := idx'\<rparr>)"
      and n: "nl + nr = c"
      by auto
    note s4 = bvh_split_state [OF st4, folded l_def]
    have nn: "node < l" using Suc.prems(2) by (simp add: l_def)
    from BSplit Suc.prems(1) s4(2) obtain st5 where
      b1: "build_bvh fuel K tris l f nl st4 = Some (Inr st5)"
      by (auto split: option.splits sum.splits)
    have "l < node_index st4" using s4(1) by simp
    from Suc.IH [OF b1 this] s4(1)
    have i1: "l + 2 \<le> node_index st5"
      "subtree False (nodes st5) l (l + 2) (node_index st5) f nl"
      "\<And>k. k \<noteq> l \<Longrightarrow> k < l + 2 \<or> node_index st5 \<le> k \<Longrightarrow> nodes st5 k = nodes st4 k"
      by auto
    define m where "m = node_index st5"
    have n5: "nodes st5 node = nodes st4 node"
      using nn by (intro i1(3)) auto
    from BSplit Suc.prems(1) s4(2) b1 n5 have
      b2: "build_bvh fuel K tris (l + 1) (f + nl) nr st5 = Some (Inr st')"
      by (auto split: option.splits sum.splits)
    have "l + 1 < node_index st5" using i1(1) by simp
    from Suc.IH [OF b2 this]
    have i2: "m \<le> node_index st'"
      "subtree False (nodes st') (l + 1) m (node_index st') (f + nl) nr"
      "\<And>k. k \<noteq> l + 1 \<Longrightarrow> k < m \<or> node_index st' \<le> k \<Longrightarrow> nodes st' k = nodes st5 k"
      by (auto simp: m_def)
    have left: "subtree False (nodes st') l (l + 2) m f nl"
      using i1(2) unfolding m_def [symmetric]
      by (rule subtree_cong) (use i1(1) m_def in \<open>auto intro!: i2(3)\<close>)
    have n6: "nodes st' node = nodes st4 node"
      using nn i1(1) m_def n5 by (subst i2(3)) auto
    have tree: "subtree False (nodes st') node l (node_index st') f (nl + nr)"
      using left i2(2) nn s4(2,3) n6
      by (intro subtree.interior [where d = d and m = m]) simp_all
    have frame: "nodes st' k = nodes st k" if "k \<noteq> node" "k < l \<or> node_index st' \<le> k" for k
    proof -
      have "nodes st' k = nodes st5 k"
        using that i2(1) i1(1) m_def by (intro i2(3)) auto
      also have "\<dots> = nodes st4 k"
        using that i2(1) i1(1) m_def by (intro i1(3)) auto
      also have "\<dots> = nodes st k"
        using that by (intro s4(4)) auto
      finally show ?thesis .
    qed
    show ?thesis
      using tree frame i1(1) i2(1) n m_def l_def by auto
  qed
qed

lemma build_bvh_total:
  assumes "valid_partition_sah K"
  shows "node < node_index st \<Longrightarrow> c \<le> int fuel \<Longrightarrow> 0 < fuel \<Longrightarrow>
     \<exists>st'. build_bvh fuel K tris node f c st = Some (Inr st') \<and>
           node_index st' \<le> node_index st + (if c < 3 then 0 else 2 * c - 4)"
proof (induction fuel arbitrary: node f c st)
  case 0
  then show ?case by simp
next
  case (Suc fuel)
  show ?case
  proof (cases "build_bvh_node K tris node f c st")
    case (BLeaf st2)
    from build_bvh_node_BLeaf [OF BLeaf] have "node_index st2 \<le> node_index st + (if c < 3 then 0 else 2 * c - 4)"
      by (auto simp: bvh_leaf_state)
    with BLeaf show ?thesis by simp
  next
    case (BSplit st4 nl nr)
    define l where "l = node_index st"
    from build_bvh_node_BSplit [OF BSplit] obtain box d idx' where
      st4: "st4 = write_axis node d
                    ((reserve_children node (write_aabb node box st))\<lparr>indices := idx'\<rparr>)"
      and nl: "nl = sah_index (partition_sah K tris (indices st) f c) - f"
      and nr: "nr = f + c - sah_index (partition_sah K tris (indices st) f c)"
      and c3: "3 \<le> c"
      by auto
    from assms c3 have "f < sah_index (partition_sah K tris (indices st) f c) \<and>
        sah_index (partition_sah K tris (indices st) f c) < f + c"
      unfolding valid_partition_sah_def by blast
    with nl nr have r: "1 \<le> nl" "1 \<le> nr" "nl + nr = c" by auto
    note s4 = bvh_split_state [OF st4, folded l_def]
    have nn: "node < l" using Suc.prems(1) by (simp add: l_def)
    have fu: "0 < fuel" "nl \<le> int fuel" "nr \<le> int fuel"
      using c3 r Suc.prems(2) by auto
    have "l < node_index st4" using s4(1) by simp
    from Suc.IH [OF this fu(2) fu(1)] obtain st5 where
      b1: "build_bvh fuel K tris l f nl st4 = Some (Inr st5)"
      and k1: "node_index st5 \<le> node_index st4 + (if nl < 3 then 0 else 2 * nl - 4)"
      by blast
    from build_bvh_subtree [OF b1 \<open>l < node_index st4\<close>] nn s4(1)
    have i1: "l + 2 \<le> node_index st5" "nodes st5 node = nodes st4 node"
      by auto
    have "l + 1 < node_index st5" using i1(1) by simp
    from Suc.IH [OF this fu(3) fu(1)] obtain st6 where
      b2: "build_bvh fuel K tris (l + 1) (f + nl) nr st5 = Some (Inr st6)"
      and k2: "node_index st6 \<le> node_index st5 + (if nr < 3 then 0 else 2 * nr - 4)"
      by blast
    have res: "build_bvh (Suc fuel) K tris node f c st = Some (Inr st6)"
      using BSplit s4(2) b1 i1(2) b2 by simp
    have "node_index st6 \<le> node_index st + (if c < 3 then 0 else 2 * c - 4)"
      using k1 k2 s4(1) r c3 l_def by (auto split: if_splits)
    with res show ?thesis by blast
  qed
qed

lemma returns_iff: "returns r \<longleftrightarrow> (\<exists>t. r = Some (Inr t))"
  by (auto simp: returns_def split: option.splits sum.splits)

lemma perform_split_bounds:
  assumes "perform_split K tris box obj spatial f c st = Inr p"
    and "f < os_index obj" "os_index obj < f + c"
  shows "0 < n_left p \<and> n_left p < c \<and> 0 < n_right p \<and> n_right p < c"
  using assms
  by (auto simp: perform_split_def
      dest!: object_split_partition_counts spatial_split_partition_counts
      split: if_splits option.splits)

lemma build_sbvh_node_Split_bounds:
  assumes "build_sbvh_node K tris node f c irsa st = Inr (Split st1 bufs nl nr)"
    and "valid_partition_object K" and "1 \<le> c"
  shows "0 < nl \<and> nl < c \<and> 0 < nr \<and> nr < c"
proof -
  from assms(1) obtain box obj spatial and p :: partition where
    p: "perform_split K tris box obj spatial f c
          (write_axis node (os_dimension obj) (reserve_children node st)) = Inr p"
    and o: "obj = partition_object K tris (indices st) f c box"
    and n: "nl = n_left p" "nr = n_right p" "c \<noteq> 1"
    by (auto simp: build_sbvh_node_def Let_def split: if_splits option.splits sum.splits)
  from n assms(3) have "2 \<le> c" by simp
  with assms(2) o have "f < os_index obj \<and> os_index obj < f + c"
    unfolding valid_partition_object_def by blast
  with perform_split_bounds [OF p] n show ?thesis by simp
qed

lemma build_sbvh_terminates:
  assumes "valid_partition_object K"
  shows "1 \<le> c \<Longrightarrow> c \<le> int fuel \<Longrightarrow> build_sbvh fuel K tris node f c irsa st \<noteq> None"
proof (induction fuel arbitrary: node f c st)
  case 0
  then show ?case by simp
next
  case (Suc fuel)
  show ?case
  proof (cases "build_sbvh_node K tris node f c irsa st")
    case (Inl e)
    then show ?thesis by simp
  next
    case (Inr step)
    show ?thesis
    proof (cases step)
      case (Leaf st2 r2)
      with Inr show ?thesis by simp
    next
      case (Split st1 bufs nl nr)
      from build_sbvh_node_Split_bounds [OF _ assms Suc.prems(1)] Inr Split
      have b: "0 < nl" "nl < c" "0 < nr" "nr < c" by blast+
      have l: "build_sbvh fuel K tris l' f' nl irsa st' \<noteq> None" for l' f' st'
        using b Suc.prems by (intro Suc.IH) auto
      have r: "build_sbvh fuel K tris l' f' nr irsa st' \<noteq> None" for l' f' st'
        using b Suc.prems by (intro Suc.IH) auto
      show ?thesis
        using Inr Split
        by (auto simp: Let_def l r split: option.splits sum.splits)
    qed
  qed
qed

lemma SBVHBuilder_build_Inr:
  assumes "SBVHBuilder_build fuel K tris idx tmp n = Some (Inr t)"
  shows "\<exists>st0 st r irsa.
           nodes st0 1 = blank \<and> (\<forall>k. k \<noteq> 0 \<longrightarrow> nodes st0 k = blank) \<and> node_index st0 = 2 \<and>
           build_sbvh fuel K tris 0 0 n irsa st0 = Some (Inr (st, r)) \<and>
           bvh_nodes t = nodes st \<and> bvh_index_count t = r \<and> bvh_node_count t = node_index st \<and>
           node_index st \<le> SBVH_OVERALLOCATION K * n"
proof -
  define sorted where "sorted = idx(0 := std_sort K (centre_key tris 0) (idx 0) n,
                       1 := std_sort K (centre_key tris 1) (idx 1) n,
                       2 := std_sort K (centre_key tris 2) (idx 2) n)"
  define root_aabb where "root_aabb = calculate_bounds K tris (sorted 0) 0 n"
  define st0 where "st0 = \<lparr>nodes = (\<lambda>k. blank)(0 := blank\<lparr>nd_aabb := Some root_aabb\<rparr>),
                 indices = sorted, temp = tmp, node_index = 2\<rparr>"
  from assms have c: "(case build_sbvh fuel K tris 0 0 n (frecip (surface_area root_aabb)) st0 of
           None \<Rightarrow> None
         | Some (Inl e) \<Rightarrow> Some (Inl e)
         | Some (Inr (st, r)) \<Rightarrow>
             if SBVH_OVERALLOCATION K * n < node_index st then Some (Inl (Aborted 330))
             else Some (Inr \<lparr>bvh_nodes = nodes st, bvh_indices = indices st 0,
                              bvh_index_count = r, bvh_node_count = node_index st\<rparr>)) = Some (Inr t)"
    unfolding SBVHBuilder_build_def Let_def st0_def root_aabb_def sorted_def .
  then obtain st r where
    b: "build_sbvh fuel K tris 0 0 n (frecip (surface_area root_aabb)) st0 = Some (Inr (st, r))"
    by (auto split: option.splits sum.splits)
  with c have "bvh_nodes t = nodes st \<and> bvh_index_count t = r \<and>
      bvh_node_count t = node_index st \<and> node_index st \<le> SBVH_OVERALLOCATION K * n"
    by (auto split: if_splits)
  moreover have "nodes st0 1 = blank \<and> (\<forall>k. k \<noteq> 0 \<longrightarrow> nodes st0 k = blank) \<and> node_index st0 = 2"
    by (simp add: st0_def)
  ultimately show ?thesis
    using b by blast
qed

lemma BVHBuilders_build_bvh_Inr:
  assumes "BVHBuilders_build_bvh fuel K tris tmp n = Some (Inr t)"
  shows "\<exists>st0 st.
           (\<forall>k. nodes st0 k = blank) \<and> node_index st0 = 2 \<and>
           build_bvh fuel K tris 0 0 n st0 = Some (Inr st) \<and>
           bvh_nodes t = nodes st \<and> bvh_index_count t = n \<and> bvh_node_count t = node_index st \<and>
           node_index st \<le> 2 * n"
proof -
  define st0 where "st0 =
    \<lparr>nodes = (\<lambda>k. blank),
     indices = (\<lambda>dimension. std_sort K (centre_key tris dimension) (\<lambda>i. i) n),
     temp = tmp, node_index = 2\<rparr>"
  from assms have c: "(case build_bvh fuel K tris 0 0 n st0 of
           None \<Rightarrow> None
         | Some (Inl e) \<Rightarrow> Some (Inl e)
         | Some (Inr st) \<Rightarrow>
             if \<not> node_index st \<le> 2 * n then Some (Inl (AssertFailed 80))
             else Some (Inr \<lparr>bvh_nodes = nodes st, bvh_indices = indices st 0,
                              bvh_index_count = n, bvh_node_count = node_index st\<rparr>)) = Some (Inr t)"
    unfolding BVHBuilders_build_bvh_def Let_def st0_def .
  then obtain st where b: "build_bvh fuel K tris 0 0 n st0 = Some (Inr st)"
    by (auto split: option.splits sum.splits)
  with c have "bvh_nodes t = nodes st \<and> bvh_index_count t = n \<and>
      bvh_node_count t = node_index st \<and> node_index st \<le> 2 * n"
    by (auto split: if_splits)
  moreover have "(\<forall>k. nodes st0 k = blank) \<and> node_index st0 = 2"
    by (simp add: st0_def)
  ultimately show ?thesis
    using b by blast
qed

lemma valid_partition_object_ex: "valid_partition_object ex_kernels"
  by (simp add: valid_partition_object_def ex_kernels_def ex_partition_object_def Let_def)

lemma valid_partition_sah_ex: "valid_partition_sah ex_kernels"
  by (simp add: valid_partition_sah_def ex_kernels_def ex_partition_sah_def Let_def)

text \<open>
  Claim C3, as the source has it. Both builders start with \<^verbatim>\<open>node_index = 2\<close>: the
  root is node 0 and slot 1 is never written. In every tree a build returns, each
  interior node \<open>i\<close> has \<open>left_child > i\<close> with the right child at \<open>left_child + 1\<close>,
  and the nodes below \<open>i\<close> lie in one contiguous range of slots that starts at
  \<open>left_child\<close> (for the root the range from 2 to \<open>node_count\<close>). In a tree of the SBVH
  builder every slot of that range is a written node. The plain builder reserves the
  two child slots before its SAH test, so there a leaf may keep two reserved slots
  that were never written.
\<close>

theorem node_layout:
  "(SBVHBuilder_build fuel K tris idx tmp triangle_count = Some (Inr t) \<longrightarrow>
      subtree True (bvh_nodes t) 0 2 (bvh_node_count t) 0 (bvh_index_count t) \<and>
      bvh_nodes t 1 = blank \<and>
      (\<forall>k. 2 \<le> k \<and> k < bvh_node_count t \<longrightarrow> nd_count (bvh_nodes t k) \<noteq> None)) \<and>
   (BVHBuilders_build_bvh fuel2 K2 tris2 tmp2 count2 = Some (Inr t2) \<longrightarrow>
      subtree False (bvh_nodes t2) 0 2 (bvh_node_count t2) 0 count2 \<and>
      bvh_nodes t2 1 = blank)"
proof (intro conjI impI allI)
  assume a: "SBVHBuilder_build fuel K tris idx tmp triangle_count = Some (Inr t)"
  from SBVHBuilder_build_Inr [OF a] obtain st0 st r irsa where
    s: "nodes st0 1 = blank" "node_index st0 = 2"
      "build_sbvh fuel K tris 0 0 triangle_count irsa st0 = Some (Inr (st, r))"
      "bvh_nodes t = nodes st" "bvh_index_count t = r" "bvh_node_count t = node_index st"
    by blast
  from build_sbvh_subtree [OF s(3)] s(2)
  have i: "subtree True (nodes st) 0 2 (node_index st) 0 r" "nodes st 1 = nodes st0 1"
    by auto
  show "subtree True (bvh_nodes t) 0 2 (bvh_node_count t) 0 (bvh_index_count t)"
    using i s by simp
  show "bvh_nodes t 1 = blank"
    using i s by simp
  fix k assume "2 \<le> k \<and> k < bvh_node_count t"
  then show "nd_count (bvh_nodes t k) \<noteq> None"
    using subtree_written [OF i(1), of k] s by simp
next
  assume a: "BVHBuilders_build_bvh fuel2 K2 tris2 tmp2 count2 = Some (Inr t2)"
  from BVHBuilders_build_bvh_Inr [OF a] obtain st0 st where
    s: "nodes st0 1 = blank" "node_index st0 = 2"
      "build_bvh fuel2 K2 tris2 0 0 count2 st0 = Some (Inr st)"
      "bvh_nodes t2 = nodes st" "bvh_node_count t2 = node_index st"
    by blast
  from build_bvh_subtree [OF s(3)] s(2)
  have i: "subtree False (nodes st) 0 2 (node_index st) 0 count2" "nodes st 1 = nodes st0 1"
    by auto
  show "subtree False (bvh_nodes t2) 0 2 (bvh_node_count t2) 0 count2"
    using i s by simp
  show "bvh_nodes t2 1 = blank"
    using i s by simp
qed

text \<open>Three triangles of the diagonal scene, in both builders.\<close>

theorem node_layout_witness:
  "\<exists>t t2.
     SBVHBuilder_build 3 ex_kernels ex_triangle ex_idx ex_tmp 3 = Some (Inr t) \<and>
     subtree True (bvh_nodes t) 0 2 (bvh_node_count t) 0 (bvh_index_count t) \<and>
     bvh_nodes t 1 = blank \<and>
     BVHBuilders_build_bvh 3 ex_kernels ex_triangle ex_tmp 3 = Some (Inr t2) \<and>
     subtree False (bvh_nodes t2) 0 2 (bvh_node_count t2) 0 3 \<and>
     bvh_nodes t2 1 = blank"
proof -
  have "returns (SBVHBuilder_build 3 ex_kernels ex_triangle ex_idx ex_tmp 3)"
    by code_simp
  then obtain t where
    a: "SBVHBuilder_build 3 ex_kernels ex_triangle ex_idx ex_tmp 3 = Some (Inr t)"
    unfolding returns_iff by blast
  have "returns (BVHBuilders_build_bvh 3 ex_kernels ex_triangle ex_tmp 3)"
    by code_simp
  then obtain t2 where
    b: "BVHBuilders_build_bvh 3 ex_kernels ex_triangle ex_tmp 3 = Some (Inr t2)"
    unfolding returns_iff by blast
  note l = node_layout [of 3 ex_kernels ex_triangle ex_idx ex_tmp 3 t 3 ex_kernels ex_triangle
      ex_tmp 3 t2]
  from l a have "subtree True (bvh_nodes t) 0 2 (bvh_node_count t) 0 (bvh_index_count t) \<and>
     bvh_nodes t 1 = blank"
    by blast
  moreover from l b have "subtree False (bvh_nodes t2) 0 2 (bvh_node_count t2) 0 3 \<and>
     bvh_nodes t2 1 = blank"
    by blast
  ultimately show ?thesis
    using a b by blast
qed

text \<open>The claim takes every slot below \<open>node_count\<close> to be a written node and the
  tree of the root to be one contiguous slice. The SBVH of three triangles has
  \<open>node_count = 6\<close>, and its slot 1, between the root and the root's children, was
  never written.\<close>

theorem node_layout_counterexample:
  "map_option bvh_node_count
     (build_result (SBVHBuilder_build 3 ex_kernels ex_triangle ex_idx ex_tmp 3)) = Some 6 \<and>
   map_option (node_at 1)
     (build_result (SBVHBuilder_build 3 ex_kernels ex_triangle ex_idx ex_tmp 3)) = Some blank \<and>
   map_option (node_at 0)
     (build_result (SBVHBuilder_build 3 ex_kernels ex_triangle ex_idx ex_tmp 3)) \<noteq> Some blank \<and>
   map_option (node_at 2)
     (build_result (SBVHBuilder_build 3 ex_kernels ex_triangle ex_idx ex_tmp 3)) \<noteq> Some blank"
  by code_simp

section \<open>The number of references\<close>

text \<open>
  Claim C4. When a call of \<^verbatim>\<open>build_sbvh\<close> on a node below \<^verbatim>\<open>node_index\<close> returns
  \<open>r\<close>, the node is the root of a tree whose leaves own exactly the \<open>r\<close> references
  from \<open>first_index\<close> on, so \<open>r\<close> is the sum of the counts of its leaves, and
  \<open>r \<ge> index_count\<close>. \<^verbatim>\<open>build\<close> stores the value the root call returns as
  \<open>index_count\<close>, which therefore is the sum of all leaf counts and at least the
  number of triangles. The call does return, with a value or an error, when the fuel
  is at least the number of references and \<^verbatim>\<open>partition_object\<close> keeps its contract.
\<close>

theorem build_sbvh_reference_count:
  "(build_sbvh fuel K tris node first_index index_count irsa st = Some (Inr (st', r)) \<and>
    node < node_index st \<longrightarrow>
      subtree True (nodes st') node (node_index st) (node_index st') first_index r \<and>
      index_count \<le> r) \<and>
   (SBVHBuilder_build fuel2 K2 tris2 idx2 tmp2 triangle_count = Some (Inr t) \<longrightarrow>
      subtree True (bvh_nodes t) 0 2 (bvh_node_count t) 0 (bvh_index_count t) \<and>
      triangle_count \<le> bvh_index_count t) \<and>
   (valid_partition_object K3 \<and> 1 \<le> count3 \<and> count3 \<le> int fuel3 \<longrightarrow>
      build_sbvh fuel3 K3 tris3 node3 first3 count3 irsa3 st3 \<noteq> None)"
proof (intro conjI impI)
  assume a: "build_sbvh fuel K tris node first_index index_count irsa st = Some (Inr (st', r)) \<and>
    node < node_index st"
  from a build_sbvh_subtree [of fuel K tris node first_index index_count irsa st st' r]
  show "subtree True (nodes st') node (node_index st) (node_index st') first_index r"
    and "index_count \<le> r"
    by blast+
next
  assume a: "SBVHBuilder_build fuel2 K2 tris2 idx2 tmp2 triangle_count = Some (Inr t)"
  from SBVHBuilder_build_Inr [OF a] obtain st0 st r irsa where
    s: "node_index st0 = 2"
      "build_sbvh fuel2 K2 tris2 0 0 triangle_count irsa st0 = Some (Inr (st, r))"
      "bvh_nodes t = nodes st" "bvh_index_count t = r" "bvh_node_count t = node_index st"
    by blast
  from build_sbvh_subtree [OF s(2)] s(1)
  have i: "subtree True (nodes st) 0 2 (node_index st) 0 r" "triangle_count \<le> r"
    by auto
  show "subtree True (bvh_nodes t) 0 2 (bvh_node_count t) 0 (bvh_index_count t)"
    using i s by simp
  show "triangle_count \<le> bvh_index_count t"
    using i s by simp
next
  assume "valid_partition_object K3 \<and> 1 \<le> count3 \<and> count3 \<le> int fuel3"
  then show "build_sbvh fuel3 K3 tris3 node3 first3 count3 irsa3 st3 \<noteq> None"
    using build_sbvh_terminates by blast
qed

theorem build_sbvh_reference_count_witness:
  "\<exists>st' r t.
     build_sbvh 3 ex_kernels ex_triangle 0 0 3 (frecip 2562)
       (ex_state \<lparr>aabb_min = Vector3 0 0 0, aabb_max = Vector3 21 21 20\<rparr> ex_idx)
       = Some (Inr (st', r)) \<and>
     subtree True (nodes st') 0 2 (node_index st') 0 r \<and> 3 \<le> r \<and>
     SBVHBuilder_build 3 ex_kernels ex_triangle ex_idx ex_tmp 3 = Some (Inr t) \<and>
     3 \<le> bvh_index_count t \<and>
     valid_partition_object ex_kernels"
proof -
  define st where "st = ex_state \<lparr>aabb_min = Vector3 0 0 0, aabb_max = Vector3 21 21 20\<rparr> ex_idx"
  have "returns (build_sbvh 3 ex_kernels ex_triangle 0 0 3 (frecip 2562)
       (ex_state \<lparr>aabb_min = Vector3 0 0 0, aabb_max = Vector3 21 21 20\<rparr> ex_idx))"
    by code_simp
  then obtain st' r where
    a: "build_sbvh 3 ex_kernels ex_triangle 0 0 3 (frecip 2562) st = Some (Inr (st', r))"
    unfolding returns_iff st_def by auto
  have n: "0 < node_index st" "node_index st = 2"
    by (simp_all add: st_def ex_state_def)
  have "returns (SBVHBuilder_build 3 ex_kernels ex_triangle ex_idx ex_tmp 3)"
    by code_simp
  then obtain t where
    b: "SBVHBuilder_build 3 ex_kernels ex_triangle ex_idx ex_tmp 3 = Some (Inr t)"
    unfolding returns_iff by blast
  note c = build_sbvh_reference_count [of 3 ex_kernels ex_triangle 0 0 3 "frecip 2562" st st' r
      3 ex_kernels ex_triangle ex_idx ex_tmp 3 t ex_kernels 3 3 ex_triangle 0 0 "frecip 2562" st]
  from c a n have "subtree True (nodes st') 0 2 (node_index st') 0 r \<and> 3 \<le> r"
    by simp
  moreover from c b have "3 \<le> bvh_index_count t"
    by blast
  ultimately show ?thesis
    using a b valid_partition_object_ex unfolding st_def by blast
qed

section \<open>The node count of the plain builder\<close>

text \<open>
  Claim C8. For one triangle or more, when \<^verbatim>\<open>partition_sah\<close> keeps its contract and
  the fuel is at least the number of triangles, the plain builder returns a tree with
  \<open>node_count \<le> 2 * triangle_count\<close>: the recursion ends, no node field is read before
  it is written, and the assertion of line 80 holds although the two child slots are
  reserved before the SAH test.
\<close>

theorem bvh_node_count_bound:
  assumes "1 \<le> triangle_count" and "valid_partition_sah K" and "triangle_count \<le> int fuel"
  shows "\<exists>t. BVHBuilders_build_bvh fuel K tris tmp triangle_count = Some (Inr t) \<and>
             bvh_node_count t \<le> 2 * triangle_count"
proof -
  define st0 where "st0 =
    \<lparr>nodes = (\<lambda>k. blank),
     indices = (\<lambda>dimension. std_sort K (centre_key tris dimension) (\<lambda>i. i) triangle_count),
     temp = tmp, node_index = 2\<rparr>"
  have "0 < node_index st0" by (simp add: st0_def)
  moreover have "0 < fuel" using assms by auto
  ultimately obtain st where
    b: "build_bvh fuel K tris 0 0 triangle_count st0 = Some (Inr st)"
    and k: "node_index st \<le> node_index st0 +
              (if triangle_count < 3 then 0 else 2 * triangle_count - 4)"
    using build_bvh_total [OF assms(2), of 0 st0 triangle_count fuel tris 0] assms(3) by blast
  from k assms(1) have le: "node_index st \<le> 2 * triangle_count"
    by (auto simp: st0_def split: if_splits)
  with b show ?thesis
    unfolding BVHBuilders_build_bvh_def Let_def st0_def [symmetric]
    by simp
qed

theorem bvh_node_count_bound_witness:
  "(1::int) \<le> 3 \<and> valid_partition_sah ex_kernels \<and> (3::int) \<le> int 3 \<and>
   (\<exists>t. BVHBuilders_build_bvh 3 ex_kernels ex_triangle ex_tmp 3 = Some (Inr t) \<and>
        bvh_node_count t \<le> 2 * 3)"
  using bvh_node_count_bound [of 3 ex_kernels 3 ex_triangle ex_tmp] valid_partition_sah_ex
  by simp

section \<open>One primitive, no primitive\<close>




section \<open>The two partitions\<close>

text \<open>
  The loops of lines 98 to 129 and 258 to 270 filter each dimension's range: the
  references that go left are written back in place, in their order, and those that go
  right are appended to the buffer of the dimension.
\<close>

lemma length_range_list [simp]: "length (range_list a i k) = k"
  by (induction k arbitrary: i) auto

lemma range_list_cong:
  "(\<And>x. i \<le> x \<Longrightarrow> x < i + int k \<Longrightarrow> a x = b x) \<Longrightarrow> range_list a i k = range_list b i k"
  by (induction k arbitrary: i) auto

lemma nth_range_list: "j < k \<Longrightarrow> range_list a i k ! j = a (i + int j)"
proof (induction k arbitrary: i j)
  case 0
  then show ?case by simp
next
  case (Suc k)
  show ?case
  proof (cases j)
    case 0
    then show ?thesis by simp
  next
    case (Suc j')
    with Suc.prems have "j' < k" by simp
    from Suc.IH [OF this, of "i + 1"] Suc show ?thesis
      by (simp add: add.assoc)
  qed
qed

lemma set_range_list: "set (range_list a i k) = a ` {i ..< i + int k}"
proof (induction k arbitrary: i)
  case 0
  then show ?case by simp
next
  case (Suc k)
  have "{i ..< i + int (Suc k)} = insert i {i + 1 ..< i + 1 + int k}"
    by auto
  with Suc show ?case by simp
qed

lemma take_range_list: "j \<le> k \<Longrightarrow> take j (range_list a i k) = range_list a i j"
  by (intro nth_equalityI) (auto simp: nth_range_list)

lemma drop_range_list: "drop j (range_list a i k) = range_list a (i + int j) (k - j)"
  by (intro nth_equalityI) (auto simp: nth_range_list add.assoc)

lemma lookup_loop_spec:
  assumes "lookup_loop tmp f e k i (idx, lc, right) = (idx', lc', right')"
    and "f + lc \<le> i"
  shows "lc' = lc + int (length (filter (\<lambda>x. tmp 0 x \<noteq> 0) (range_list (idx e) i k))) \<and>
         right' = right @ filter (\<lambda>x. tmp 1 x \<noteq> 0) (range_list (idx e) i k) \<and>
         (\<forall>e'. e' \<noteq> e \<longrightarrow> idx' e' = idx e') \<and>
         (\<forall>x. x < f + lc \<or> f + lc' \<le> x \<longrightarrow> idx' e x = idx e x) \<and>
         range_list (idx' e) (f + lc)
           (length (filter (\<lambda>x. tmp 0 x \<noteq> 0) (range_list (idx e) i k))) =
           filter (\<lambda>x. tmp 0 x \<noteq> 0) (range_list (idx e) i k)"
  using assms
proof (induction k arbitrary: i idx lc right)
  case 0
  then show ?case by simp
next
  case (Suc k)
  define v where "v = idx e i"
  define idx1 where
    "idx1 = (if tmp 0 v \<noteq> 0 then idx(e := (idx e)(f + lc := v)) else idx)"
  define lc1 where "lc1 = (if tmp 0 v \<noteq> 0 then lc + 1 else lc)"
  define right1 where "right1 = (if tmp 1 v \<noteq> 0 then right @ [v] else right)"
  have step: "lookup_loop tmp f e k (i + 1) (idx1, lc1, right1) = (idx', lc', right')"
    using Suc.prems(1) unfolding idx1_def lc1_def right1_def v_def
    by (simp add: Let_def split del: if_split)
  have le: "f + lc1 \<le> i + 1" using Suc.prems(2) by (simp add: lc1_def)
  have rest: "range_list (idx1 e) (i + 1) k = range_list (idx e) (i + 1) k"
    using Suc.prems(2) by (intro range_list_cong) (auto simp: idx1_def)
  note ih = Suc.IH [OF step le, unfolded rest]
  define rest_l where "rest_l = filter (\<lambda>x. tmp 0 x \<noteq> 0) (range_list (idx e) (i + 1) k)"
  from ih have
    a: "lc' = lc1 + int (length rest_l)"
    and b: "right' = right1 @ filter (\<lambda>x. tmp 1 x \<noteq> 0) (range_list (idx e) (i + 1) k)"
    and c: "\<And>e'. e' \<noteq> e \<Longrightarrow> idx' e' = idx1 e'"
    and d: "\<And>x. x < f + lc1 \<or> f + lc' \<le> x \<Longrightarrow> idx' e x = idx1 e x"
    and g: "range_list (idx' e) (f + lc1) (length rest_l) = rest_l"
    by (auto simp: rest_l_def)
  show ?case
  proof (cases "tmp 0 v \<noteq> 0")
    case True
    have w: "idx' e (f + lc) = v"
      using d [of "f + lc"] True by (simp add: lc1_def idx1_def)
    have "\<And>x. x < f + lc \<or> f + lc' \<le> x \<Longrightarrow> idx' e x = idx e x"
      using d a True by (auto simp: lc1_def idx1_def)
    moreover have "\<And>e'. e' \<noteq> e \<Longrightarrow> idx' e' = idx e'"
      using c True by (simp add: idx1_def)
    moreover have "range_list (idx' e) (f + lc) (Suc (length rest_l)) = v # rest_l"
      using g w True by (simp add: lc1_def add.assoc)
    ultimately show ?thesis
      using a b True
      by (simp add: v_def [symmetric] rest_l_def [symmetric] lc1_def right1_def)
  next
    case False
    have "\<And>x. x < f + lc \<or> f + lc' \<le> x \<Longrightarrow> idx' e x = idx e x"
      using d a False by (auto simp: lc1_def idx1_def)
    moreover have "\<And>e'. e' \<noteq> e \<Longrightarrow> idx' e' = idx e'"
      using c False by (simp add: idx1_def)
    ultimately show ?thesis
      using a b g False
      by (simp add: v_def [symmetric] rest_l_def [symmetric] lc1_def right1_def idx1_def)
  qed
qed

declare scan_left.simps [simp del]

lemma scan_left_iff:
  "scan_left tris a d split f index j \<longleftrightarrow>
     (\<exists>j'. f \<le> j' \<and> j' \<le> j \<and> a j' = index \<and>
           (\<forall>y. j' \<le> y \<and> y \<le> j \<longrightarrow> centre_key tris d (a y) = split))"
proof (induction tris a d split f index j rule: scan_left.induct)
  case (1 tris a d split f index j)
  show ?case
  proof (cases "f \<le> j \<and> centre_key tris d (a j) = split")
    case False
    then have "\<not> scan_left tris a d split f index j"
      by (subst scan_left.simps) (auto simp: centre_key_def)
    moreover have "\<not> (\<exists>j'. f \<le> j' \<and> j' \<le> j \<and> a j' = index \<and>
           (\<forall>y. j' \<le> y \<and> y \<le> j \<longrightarrow> centre_key tris d (a y) = split))"
      using False by auto
    ultimately show ?thesis by blast
  next
    case True
    show ?thesis
    proof (cases "a j = index")
      case eq: True
      have "scan_left tris a d split f index j"
        using True eq by (subst scan_left.simps) (auto simp: centre_key_def)
      moreover have "\<exists>j'. f \<le> j' \<and> j' \<le> j \<and> a j' = index \<and>
           (\<forall>y. j' \<le> y \<and> y \<le> j \<longrightarrow> centre_key tris d (a y) = split)"
        using True eq by (intro exI [of _ j]) auto
      ultimately show ?thesis by blast
    next
      case ne: False
      have s: "scan_left tris a d split f index j = scan_left tris a d split f index (j - 1)"
        using True ne by (subst scan_left.simps) (auto simp: centre_key_def)
      have ih: "scan_left tris a d split f index (j - 1) \<longleftrightarrow>
         (\<exists>j'. f \<le> j' \<and> j' \<le> j - 1 \<and> a j' = index \<and>
           (\<forall>y. j' \<le> y \<and> y \<le> j - 1 \<longrightarrow> centre_key tris d (a y) = split))"
        using True ne by (intro "1.IH") (auto simp: centre_key_def)
      have "(\<exists>j'. f \<le> j' \<and> j' \<le> j - 1 \<and> a j' = index \<and>
           (\<forall>y. j' \<le> y \<and> y \<le> j - 1 \<longrightarrow> centre_key tris d (a y) = split)) \<longleftrightarrow>
         (\<exists>j'. f \<le> j' \<and> j' \<le> j \<and> a j' = index \<and>
           (\<forall>y. j' \<le> y \<and> y \<le> j \<longrightarrow> centre_key tris d (a y) = split))"
      proof
        assume "\<exists>j'. f \<le> j' \<and> j' \<le> j - 1 \<and> a j' = index \<and>
           (\<forall>y. j' \<le> y \<and> y \<le> j - 1 \<longrightarrow> centre_key tris d (a y) = split)"
        then obtain j' where j': "f \<le> j'" "j' \<le> j - 1" "a j' = index"
          "\<forall>y. j' \<le> y \<and> y \<le> j - 1 \<longrightarrow> centre_key tris d (a y) = split"
          by blast
        have "\<forall>y. j' \<le> y \<and> y \<le> j \<longrightarrow> centre_key tris d (a y) = split"
        proof (intro allI impI)
          fix y assume "j' \<le> y \<and> y \<le> j"
          then consider "y \<le> j - 1 \<and> j' \<le> y" | "y = j" by linarith
          then show "centre_key tris d (a y) = split"
            using j'(4) True by cases auto
        qed
        with j' show "\<exists>j'. f \<le> j' \<and> j' \<le> j \<and> a j' = index \<and>
           (\<forall>y. j' \<le> y \<and> y \<le> j \<longrightarrow> centre_key tris d (a y) = split)"
          by (intro exI [of _ j']) auto
      next
        assume "\<exists>j'. f \<le> j' \<and> j' \<le> j \<and> a j' = index \<and>
           (\<forall>y. j' \<le> y \<and> y \<le> j \<longrightarrow> centre_key tris d (a y) = split)"
        then obtain j' where j': "f \<le> j'" "j' \<le> j" "a j' = index"
          "\<forall>y. j' \<le> y \<and> y \<le> j \<longrightarrow> centre_key tris d (a y) = split"
          by blast
        with ne have "j' \<noteq> j" by auto
        with j' show "\<exists>j'. f \<le> j' \<and> j' \<le> j - 1 \<and> a j' = index \<and>
           (\<forall>y. j' \<le> y \<and> y \<le> j - 1 \<longrightarrow> centre_key tris d (a y) = split)"
          by (intro exI [of _ j']) auto
      qed
      with s ih show ?thesis by simp
    qed
  qed
qed

lemma scan_left_cong_imp:
  assumes "\<And>x. f \<le> x \<Longrightarrow> x \<le> j \<Longrightarrow> a x = b x"
    and "scan_left tris a d split f index j"
  shows "scan_left tris b d split f index j"
proof -
  from assms(2) obtain j' where j': "f \<le> j'" "j' \<le> j" "a j' = index"
    "\<forall>y. j' \<le> y \<and> y \<le> j \<longrightarrow> centre_key tris d (a y) = split"
    unfolding scan_left_iff by blast
  have "b j' = index" using assms(1) [of j'] j' by simp
  moreover have "\<forall>y. j' \<le> y \<and> y \<le> j \<longrightarrow> centre_key tris d (b y) = split"
  proof (intro allI impI)
    fix y assume y: "j' \<le> y \<and> y \<le> j"
    with j' have "a y = b y" by (intro assms(1)) auto
    with j'(4) y show "centre_key tris d (b y) = split" by auto
  qed
  ultimately show ?thesis
    unfolding scan_left_iff using j' by (intro exI [of _ j']) auto
qed

lemma scan_left_cong:
  assumes "\<And>x. f \<le> x \<Longrightarrow> x \<le> j \<Longrightarrow> a x = b x"
  shows "scan_left tris a d split f index j = scan_left tris b d split f index j"
  using scan_left_cong_imp [of f j a b] scan_left_cong_imp [of f j b a] assms
  by (auto simp del: scan_left.simps)

lemma sorted_range_list:
  assumes "sorted (map key (range_list a f n))" "f \<le> p" "p \<le> q" "q < f + int n"
  shows "(key (a p) :: real) \<le> key (a q)"
proof -
  have "map key (range_list a f n) ! nat (p - f) \<le> map key (range_list a f n) ! nat (q - f)"
    using assms by (intro sorted_nth_mono) auto
  then show ?thesis
    using assms by (simp add: nth_range_list)
qed

lemma distinct_range_list:
  assumes "distinct (range_list a f n)" "f \<le> p" "p < f + int n" "f \<le> q" "q < f + int n"
    "a p = a q"
  shows "p = q"
proof -
  have "range_list a f n ! nat (p - f) = range_list a f n ! nat (q - f)"
    using assms by (simp add: nth_range_list)
  then have "nat (p - f) = nat (q - f)"
    using assms by (subst (asm) nth_eq_iff_index_eq) auto
  then show ?thesis using assms by simp
qed

lemma goes_left_iff_before_split:
  assumes "sorted (map (centre_key tris (os_dimension obj)) (range_list a f n))"
    and "distinct (range_list a f n)"
    and "f < os_index obj" "os_index obj < f + int n"
    and "f \<le> x" "x < f + int n"
    and "split = centre_key tris (os_dimension obj) (a (os_index obj))"
  shows "goes_left_of tris obj split f a (a x) \<longleftrightarrow> x < os_index obj"
proof
  assume g: "goes_left_of tris obj split f a (a x)"
  show "x < os_index obj"
  proof (rule ccontr)
    assume "\<not> x < os_index obj"
    then have ge: "os_index obj \<le> x" by simp
    have "split \<le> centre_key tris (os_dimension obj) (a x)"
      unfolding assms(7) using assms ge by (intro sorted_range_list [OF assms(1)]) auto
    with g have "scan_left tris a (os_dimension obj) split f (a x) (os_index obj - 1)"
      by (auto simp: goes_left_of_def)
    then obtain j' where "f \<le> j'" "j' \<le> os_index obj - 1" "a j' = a x"
      unfolding scan_left_iff by blast
    with distinct_range_list [OF assms(2), of j' x] assms ge show False
      by auto
  qed
next
  assume lt: "x < os_index obj"
  have le: "centre_key tris (os_dimension obj) (a x) \<le> split"
    unfolding assms(7) using assms lt by (intro sorted_range_list [OF assms(1)]) auto
  show "goes_left_of tris obj split f a (a x)"
  proof (cases "centre_key tris (os_dimension obj) (a x) < split")
    case True
    then show ?thesis by (simp add: goes_left_of_def)
  next
    case False
    with le have eq: "centre_key tris (os_dimension obj) (a x) = split" by simp
    have "\<forall>y. x \<le> y \<and> y \<le> os_index obj - 1 \<longrightarrow>
            centre_key tris (os_dimension obj) (a y) = split"
    proof (intro allI impI)
      fix y assume y: "x \<le> y \<and> y \<le> os_index obj - 1"
      have "centre_key tris (os_dimension obj) (a x) \<le> centre_key tris (os_dimension obj) (a y)"
        using assms y by (intro sorted_range_list [OF assms(1)]) auto
      moreover have "centre_key tris (os_dimension obj) (a y) \<le> split"
        unfolding assms(7) using assms y by (intro sorted_range_list [OF assms(1)]) auto
      ultimately show "centre_key tris (os_dimension obj) (a y) = split"
        using eq by simp
    qed
    then have "scan_left tris a (os_dimension obj) split f (a x) (os_index obj - 1)"
      unfolding scan_left_iff using assms lt by (intro exI [of _ x]) auto
    with eq show ?thesis by (simp add: goes_left_of_def)
  qed
qed

lemma object_split_loop_Suc:
  "object_split_loop tris obj split f e (Suc k) i (idx, lc, right) =
     object_split_loop tris obj split f e k (i + 1)
       (if goes_left_of tris obj split f (idx (os_dimension obj)) (idx e i)
        then (idx(e := (idx e)(f + lc := idx e i)), lc + 1, right)
        else (idx, lc, right @ [idx e i]))"
  by (simp add: Let_def goes_left_of_def centre_key_def)

lemma goes_left_of_cong:
  assumes "\<And>x. f \<le> x \<Longrightarrow> x < os_index obj \<Longrightarrow> a x = b x"
  shows "goes_left_of tris obj split f a = goes_left_of tris obj split f b"
proof
  fix index
  have "scan_left tris a (os_dimension obj) split f index (os_index obj - 1) =
        scan_left tris b (os_dimension obj) split f index (os_index obj - 1)"
    using assms by (intro scan_left_cong) auto
  then show "goes_left_of tris obj split f a index = goes_left_of tris obj split f b index"
    by (simp add: goes_left_of_def)
qed

lemma object_split_loop_other:
  assumes "object_split_loop tris obj split f e k i (idx, lc, right) = (idx', lc', right')"
    and "e \<noteq> os_dimension obj"
    and "f + lc \<le> i"
  shows "lc' = lc + int (length (filter (goes_left_of tris obj split f (idx (os_dimension obj)))
                                   (range_list (idx e) i k))) \<and>
         right' = right @ filter (\<lambda>x. \<not> goes_left_of tris obj split f (idx (os_dimension obj)) x)
                            (range_list (idx e) i k) \<and>
         (\<forall>e'. e' \<noteq> e \<longrightarrow> idx' e' = idx e') \<and>
         (\<forall>x. x < f + lc \<or> f + lc' \<le> x \<longrightarrow> idx' e x = idx e x) \<and>
         range_list (idx' e) (f + lc)
           (length (filter (goes_left_of tris obj split f (idx (os_dimension obj)))
                      (range_list (idx e) i k))) =
           filter (goes_left_of tris obj split f (idx (os_dimension obj))) (range_list (idx e) i k)"
  using assms
proof (induction k arbitrary: i idx lc right)
  case 0
  then show ?case by simp
next
  case (Suc k)
  define L where "L = goes_left_of tris obj split f (idx (os_dimension obj))"
  define v where "v = idx e i"
  define idx1 where "idx1 = (if L v then idx(e := (idx e)(f + lc := v)) else idx)"
  define lc1 where "lc1 = (if L v then lc + 1 else lc)"
  define right1 where "right1 = (if L v then right else right @ [v])"
  have step: "object_split_loop tris obj split f e k (i + 1) (idx1, lc1, right1) = (idx', lc', right')"
    using Suc.prems(1) unfolding object_split_loop_Suc idx1_def lc1_def right1_def v_def L_def
    by (simp split: if_splits)
  have le: "f + lc1 \<le> i + 1" using Suc.prems(3) by (simp add: lc1_def)
  have d1: "idx1 (os_dimension obj) = idx (os_dimension obj)"
    using Suc.prems(2) by (simp add: idx1_def)
  have rest: "range_list (idx1 e) (i + 1) k = range_list (idx e) (i + 1) k"
    using Suc.prems(3) by (intro range_list_cong) (auto simp: idx1_def)
  note ih = Suc.IH [OF step Suc.prems(2) le, unfolded rest d1, folded L_def]
  define rest_l where "rest_l = filter L (range_list (idx e) (i + 1) k)"
  from ih have
    a: "lc' = lc1 + int (length rest_l)"
    and b: "right' = right1 @ filter (\<lambda>x. \<not> L x) (range_list (idx e) (i + 1) k)"
    and c: "\<And>e'. e' \<noteq> e \<Longrightarrow> idx' e' = idx1 e'"
    and d: "\<And>x. x < f + lc1 \<or> f + lc' \<le> x \<Longrightarrow> idx' e x = idx1 e x"
    and g: "range_list (idx' e) (f + lc1) (length rest_l) = rest_l"
    by (auto simp: rest_l_def)
  show ?case
  proof (cases "L v")
    case True
    have w: "idx' e (f + lc) = v"
      using d [of "f + lc"] True by (simp add: lc1_def idx1_def)
    have "\<And>x. x < f + lc \<or> f + lc' \<le> x \<Longrightarrow> idx' e x = idx e x"
      using d a True by (auto simp: lc1_def idx1_def)
    moreover have "\<And>e'. e' \<noteq> e \<Longrightarrow> idx' e' = idx e'"
      using c True by (simp add: idx1_def)
    moreover have "range_list (idx' e) (f + lc) (Suc (length rest_l)) = v # rest_l"
      using g w True by (simp add: lc1_def add.assoc)
    ultimately show ?thesis
      using a b True
      by (simp add: L_def [symmetric] v_def [symmetric] rest_l_def [symmetric] lc1_def right1_def)
  next
    case False
    have "\<And>x. x < f + lc \<or> f + lc' \<le> x \<Longrightarrow> idx' e x = idx e x"
      using d a False by (auto simp: lc1_def idx1_def)
    moreover have "\<And>e'. e' \<noteq> e \<Longrightarrow> idx' e' = idx e'"
      using c False by (simp add: idx1_def)
    ultimately show ?thesis
      using a b g False
      by (simp add: L_def [symmetric] v_def [symmetric] rest_l_def [symmetric] lc1_def right1_def
          idx1_def)
  qed
qed

lemma object_split_loop_same:
  assumes "object_split_loop tris obj split f (os_dimension obj) k i (idx, lc, right) =
             (idx', lc', right')"
    and "\<And>x. i \<le> x \<Longrightarrow> x < i + int k \<Longrightarrow>
           goes_left_of tris obj split f (idx (os_dimension obj)) (idx (os_dimension obj) x)
             \<longleftrightarrow> x < s"
    and "i < s \<longrightarrow> f + lc = i"
  shows "idx' = idx \<and>
         lc' = lc + int (length (filter (goes_left_of tris obj split f (idx (os_dimension obj)))
                                   (range_list (idx (os_dimension obj)) i k))) \<and>
         right' = right @ filter (\<lambda>x. \<not> goes_left_of tris obj split f (idx (os_dimension obj)) x)
                            (range_list (idx (os_dimension obj)) i k)"
  using assms
proof (induction k arbitrary: i lc right)
  case 0
  then show ?case by simp
next
  case (Suc k)
  define d where "d = os_dimension obj"
  define L where "L = goes_left_of tris obj split f (idx d)"
  have Li: "L (idx d i) \<longleftrightarrow> i < s"
    unfolding L_def d_def by (intro Suc.prems(2)) auto
  show ?case
  proof (cases "i < s")
    case True
    then have w: "idx(d := (idx d)(f + lc := idx d i)) = idx"
      using Suc.prems(3) by auto
    have step: "object_split_loop tris obj split f d k (i + 1) (idx, lc + 1, right) =
        (idx', lc', right')"
      using Suc.prems(1) True Li w
      unfolding object_split_loop_Suc d_def [symmetric] L_def [symmetric] by simp
    have "idx' = idx \<and> lc' = lc + 1 + int (length (filter L (range_list (idx d) (i + 1) k))) \<and>
        right' = right @ filter (\<lambda>x. \<not> L x) (range_list (idx d) (i + 1) k)"
      unfolding L_def d_def
      using Suc.prems(3) True
      by (intro Suc.IH step [unfolded d_def] Suc.prems(2)) auto
    then show ?thesis
      using True Li by (simp add: d_def [symmetric] L_def [symmetric])
  next
    case False
    have step: "object_split_loop tris obj split f d k (i + 1) (idx, lc, right @ [idx d i]) =
        (idx', lc', right')"
      using Suc.prems(1) False Li
      unfolding object_split_loop_Suc d_def [symmetric] L_def [symmetric] by simp
    have "idx' = idx \<and> lc' = lc + int (length (filter L (range_list (idx d) (i + 1) k))) \<and>
        right' = (right @ [idx d i]) @ filter (\<lambda>x. \<not> L x) (range_list (idx d) (i + 1) k)"
      unfolding L_def d_def
      using False
      by (intro Suc.IH step [unfolded d_def] Suc.prems(2)) auto
    then show ?thesis
      using False Li by (simp add: d_def [symmetric] L_def [symmetric])
  qed
qed

lemma filter_prefix:
  "(\<And>j. j < length xs \<Longrightarrow> P (xs ! j) \<longleftrightarrow> j < m) \<Longrightarrow>
     filter P xs = take m xs \<and> filter (\<lambda>x. \<not> P x) xs = drop m xs"
proof (induction xs arbitrary: m)
  case Nil
  then show ?case by simp
next
  case (Cons x xs)
  show ?case
  proof (cases m)
    case 0
    have "\<And>j. j < length xs \<Longrightarrow> P (xs ! j) \<longleftrightarrow> j < 0"
      using Cons.prems [of "Suc _"] 0 by auto
    from Cons.IH [OF this] Cons.prems [of 0] 0 show ?thesis by simp
  next
    case (Suc m')
    have "\<And>j. j < length xs \<Longrightarrow> P (xs ! j) \<longleftrightarrow> j < m'"
      using Cons.prems [of "Suc _"] Suc by auto
    from Cons.IH [OF this] Cons.prems [of 0] Suc show ?thesis by simp
  qed
qed

lemma same_references_mset:
  assumes "same_references idx f c" "d \<in> {0, 1, 2}" "e \<in> {0, 1, 2}"
  shows "mset (range_list (idx e) f (nat c)) = mset (range_list (idx d) f (nat c))"
  using assms by (auto simp: same_references_def)

lemma object_split_loop_axis:
  assumes loop: "object_split_loop tris obj split f e n f (idx, 0, []) = (idx', lc', right')"
    and key: "\<And>x. f \<le> x \<Longrightarrow> x < f + int n \<Longrightarrow>
           goes_left_of tris obj split f (idx (os_dimension obj)) (idx (os_dimension obj) x)
             \<longleftrightarrow> x < os_index obj"
    and s: "f < os_index obj" "os_index obj < f + int n"
  shows "lc' = int (length (filter (goes_left_of tris obj split f (idx (os_dimension obj)))
                              (range_list (idx e) f n))) \<and>
         right' = filter (\<lambda>x. \<not> goes_left_of tris obj split f (idx (os_dimension obj)) x)
                    (range_list (idx e) f n) \<and>
         (\<forall>e'. e' \<noteq> e \<longrightarrow> idx' e' = idx e') \<and>
         idx' (os_dimension obj) = idx (os_dimension obj) \<and>
         range_list (idx' e) f
           (length (filter (goes_left_of tris obj split f (idx (os_dimension obj)))
                      (range_list (idx e) f n))) =
           filter (goes_left_of tris obj split f (idx (os_dimension obj))) (range_list (idx e) f n)"
proof (cases "e = os_dimension obj")
  case False
  from object_split_loop_other [OF loop False] show ?thesis
    using False by simp
next
  case True
  define d where "d = os_dimension obj"
  define L where "L = goes_left_of tris obj split f (idx d)"
  have same: "idx' = idx \<and> lc' = 0 + int (length (filter L (range_list (idx d) f n))) \<and>
      right' = [] @ filter (\<lambda>x. \<not> L x) (range_list (idx d) f n)"
    unfolding L_def d_def
    using loop [unfolded True] key
    by (intro object_split_loop_same [where s = "os_index obj"]) auto
  have "\<And>j. j < length (range_list (idx d) f n) \<Longrightarrow>
          L (range_list (idx d) f n ! j) \<longleftrightarrow> j < nat (os_index obj - f)"
    using key s by (auto simp: nth_range_list L_def d_def)
  from filter_prefix [of "range_list (idx d) f n" L, OF this]
  have "filter L (range_list (idx d) f n) = take (nat (os_index obj - f)) (range_list (idx d) f n)"
    by simp
  also have "\<dots> = range_list (idx d) f (nat (os_index obj - f))"
    using s by (intro take_range_list) auto
  finally have fl: "filter L (range_list (idx d) f n) = range_list (idx d) f (nat (os_index obj - f))" .
  have "range_list (idx d) f (length (filter L (range_list (idx d) f n))) =
          filter L (range_list (idx d) f n)"
    by (simp add: fl)
  with same show ?thesis
    using True by (simp add: d_def [symmetric] L_def [symmetric])
qed

lemma filter_goes_left_length:
  assumes "sorted (map (centre_key tris (os_dimension obj)) (range_list a f n))"
    and "distinct (range_list a f n)"
    and "f < os_index obj" "os_index obj < f + int n"
    and "split = centre_key tris (os_dimension obj) (a (os_index obj))"
    and "mset xs = mset (range_list a f n)"
  shows "int (length (filter (goes_left_of tris obj split f a) xs)) = os_index obj - f"
    and "int (length (filter (\<lambda>x. \<not> goes_left_of tris obj split f a x) xs)) =
           f + int n - os_index obj"
proof -
  define L where "L = goes_left_of tris obj split f a"
  have "\<And>j. j < length (range_list a f n) \<Longrightarrow>
          L (range_list a f n ! j) \<longleftrightarrow> j < nat (os_index obj - f)"
    using goes_left_iff_before_split [OF assms(1,2,3,4) _ _ assms(5)] assms(3,4)
    by (auto simp: nth_range_list L_def)
  from filter_prefix [of "range_list a f n" L, OF this]
  have "length (filter L (range_list a f n)) = nat (os_index obj - f)"
    using assms(3,4) by simp
  moreover have "length (filter L xs) = length (filter L (range_list a f n))"
    using assms(6) by (metis mset_filter size_mset)
  ultimately have a: "int (length (filter L xs)) = os_index obj - f"
    using assms(3) by simp
  have "length xs = n"
    using assms(6) by (metis length_range_list size_mset)
  moreover have "length (filter L xs) + length (filter (\<lambda>x. \<not> L x) xs) = length xs"
    by (rule sum_length_filter_compl)
  ultimately have b: "int (length (filter (\<lambda>x. \<not> L x) xs)) = f + int n - os_index obj"
    using a by linarith
  from a b show
    "int (length (filter (goes_left_of tris obj split f a) xs)) = os_index obj - f"
    "int (length (filter (\<lambda>x. \<not> goes_left_of tris obj split f a x) xs)) =
           f + int n - os_index obj"
    by (simp_all add: L_def)
qed

lemma object_split_partition_spec:
  assumes dim: "os_dimension obj \<in> {0, 1, 2}"
    and s: "first_index < os_index obj" "os_index obj < first_index + index_count"
    and same: "same_references (indices st) first_index index_count"
    and dist: "distinct (range_list (indices st (os_dimension obj)) first_index (nat index_count))"
    and sorted: "sorted (map (centre_key tris (os_dimension obj))
                   (range_list (indices st (os_dimension obj)) first_index (nat index_count)))"
    and L: "L = goes_left_of tris obj
                  (centre_key tris (os_dimension obj) (indices st (os_dimension obj) (os_index obj)))
                  first_index (indices st (os_dimension obj))"
  shows "\<exists>p. object_split_partition tris obj first_index index_count st = Inr p \<and>
             n_left p = os_index obj - first_index \<and>
             n_right p = first_index + index_count - os_index obj \<and>
             (\<forall>e \<in> {0, 1, 2}.
                left_refs p first_index e =
                  filter L (range_list (indices st e) first_index (nat index_count)) \<and>
                right_refs p e =
                  filter (\<lambda>x. \<not> L x) (range_list (indices st e) first_index (nat index_count)))"
proof -
  define d where "d = os_dimension obj"
  define n where "n = nat index_count"
  define f where "f = first_index"
  define split where "split = centre_key tris d (indices st d (os_index obj))"
  define idx where "idx = indices st"
  have n: "int n = index_count" "os_index obj < f + int n" "f < os_index obj"
    using s by (auto simp: n_def f_def)
  define a where "a = idx d"
  have srt: "sorted (map (centre_key tris (os_dimension obj)) (range_list a f n))"
    and dst: "distinct (range_list a f n)"
    using sorted dist by (simp_all add: n_def f_def idx_def a_def d_def)
  have spl: "split = centre_key tris (os_dimension obj) (a (os_index obj))"
    by (simp add: split_def d_def idx_def a_def)
  have L': "L = goes_left_of tris obj split f a"
    using L by (simp add: split_def d_def idx_def a_def f_def)
  have Leq: "goes_left_of tris obj split f (idx (os_dimension obj)) = L"
    by (simp add: L' a_def d_def)
  have ms: "mset (range_list (idx e) f n) = mset (range_list a f n)"
    if "e \<in> {0, 1, 2}" for e
    using same_references_mset [OF same dim that] by (simp add: n_def f_def idx_def a_def d_def)
  have len: "int (length (filter L (range_list (idx e) f n))) = os_index obj - f"
    "int (length (filter (\<lambda>x. \<not> L x) (range_list (idx e) f n))) = f + int n - os_index obj"
    if "e \<in> {0, 1, 2}" for e
    using filter_goes_left_length [OF srt dst n(3) n(2) spl ms [OF that]]
    by (simp_all add: L')
  have len': "length (filter L (range_list (idx e) f n)) = nat (os_index obj - f)"
    if "e \<in> {0, 1, 2}" for e
    using len(1) [OF that] by linarith
  have key: "goes_left_of tris obj split f a (a x) \<longleftrightarrow> x < os_index obj"
    if "f \<le> x" "x < f + int n" for x
    using goes_left_iff_before_split [OF srt dst n(3) n(2) that spl] .
  obtain idx0 l0 r0 where
    l0: "object_split_loop tris obj split f 0 n f (idx, 0, []) = (idx0, l0, r0)"
    by (metis prod_cases3)
  obtain idx1 l1 r1 where
    l1: "object_split_loop tris obj split f 1 n f (idx0, 0, []) = (idx1, l1, r1)"
    by (metis prod_cases3)
  obtain idx2 l2 r2 where
    l2: "object_split_loop tris obj split f 2 n f (idx1, 0, []) = (idx2, l2, r2)"
    by (metis prod_cases3)
  have k0: "goes_left_of tris obj split f (idx (os_dimension obj)) (idx (os_dimension obj) x)
              \<longleftrightarrow> x < os_index obj" if "f \<le> x" "x < f + int n" for x
    using key [OF that] by (simp add: a_def d_def)
  note a0 = object_split_loop_axis [OF l0 k0 n(3) n(2), unfolded Leq]
  have d0: "idx0 (os_dimension obj) = idx (os_dimension obj)"
    using object_split_loop_axis [OF l0 k0 n(3) n(2)] by simp
  have k1: "goes_left_of tris obj split f (idx0 (os_dimension obj)) (idx0 (os_dimension obj) x)
              \<longleftrightarrow> x < os_index obj" if "f \<le> x" "x < f + int n" for x
    using key [OF that] d0 by (simp add: a_def d_def)
  note a1 = object_split_loop_axis [OF l1 k1 n(3) n(2), unfolded d0 Leq]
  have d1: "idx1 (os_dimension obj) = idx (os_dimension obj)"
    using object_split_loop_axis [OF l1 k1 n(3) n(2)] d0 by simp
  have k2: "goes_left_of tris obj split f (idx1 (os_dimension obj)) (idx1 (os_dimension obj) x)
              \<longleftrightarrow> x < os_index obj" if "f \<le> x" "x < f + int n" for x
    using key [OF that] d1 by (simp add: a_def d_def)
  note a2 = object_split_loop_axis [OF l2 k2 n(3) n(2), unfolded d1 Leq]
  have i1: "idx0 1 = idx 1" "idx0 2 = idx 2" using a0 by auto
  have i2: "idx1 0 = idx0 0" "idx1 2 = idx 2" using a1 i1 by auto
  have i3: "idx2 0 = idx0 0" "idx2 1 = idx1 1" using a2 i2 by auto
  have c0: "l0 = os_index obj - f" "int (length r0) = f + int n - os_index obj"
    "r0 = filter (\<lambda>x. \<not> L x) (range_list (idx 0) f n)"
    "range_list (idx0 0) f (nat (os_index obj - f)) = filter L (range_list (idx 0) f n)"
    using a0 len [of 0] len' [of 0] by (auto simp del: length_filter_conv_card)
  have c1: "l1 = os_index obj - f" "int (length r1) = f + int n - os_index obj"
    "r1 = filter (\<lambda>x. \<not> L x) (range_list (idx 1) f n)"
    "range_list (idx1 1) f (nat (os_index obj - f)) = filter L (range_list (idx 1) f n)"
    using a1 len [of 1] len' [of 1] i1 by (auto simp del: length_filter_conv_card)
  have c2: "l2 = os_index obj - f" "int (length r2) = f + int n - os_index obj"
    "r2 = filter (\<lambda>x. \<not> L x) (range_list (idx 2) f n)"
    "range_list (idx2 2) f (nat (os_index obj - f)) = filter L (range_list (idx 2) f n)"
    using a2 len [of 2] len' [of 2] i2 by (auto simp del: length_filter_conv_card)
  define p where "p = \<lparr>p_indices = idx2, p_temp = temp st, children_right = (r0, r1, r2),
                   n_left = l0, n_right = int (length r0),
                   child_aabb_left = os_aabb_left obj, child_aabb_right = os_aabb_right obj\<rparr>"
  have sp: "vec_index (get_center (tris (indices st (os_dimension obj) (os_index obj))))
              (os_dimension obj) = split"
    by (simp add: split_def d_def centre_key_def)
  have res: "object_split_partition tris obj first_index index_count st = Inr p"
    unfolding object_split_partition_def sp
    using l0 l1 l2 c0(1,2) c1(1,2) c2(1,2) n
    by (simp add: Let_def n_def [symmetric] f_def [symmetric] idx_def [symmetric] p_def)
  have "left_refs p first_index e = filter L (range_list (indices st e) first_index (nat index_count)) \<and>
        right_refs p e = filter (\<lambda>x. \<not> L x) (range_list (indices st e) first_index (nat index_count))"
    if "e \<in> {0, 1, 2}" for e
    using that c0 c1 c2 i3
    by (auto simp: left_refs_def right_refs_def p_def f_def [symmetric] n_def [symmetric]
        idx_def [symmetric])
  moreover have "n_left p = os_index obj - first_index"
    "n_right p = first_index + index_count - os_index obj"
    using c0 n by (simp_all add: p_def f_def)
  ultimately show ?thesis
    using res by blast
qed

lemma trunc_int_mono: "r \<le> r' \<Longrightarrow> trunc_int r \<le> trunc_int r'"
proof -
  have "\<lceil>r\<rceil> \<le> \<lfloor>r'\<rfloor>" if "r < 0" "0 \<le> r'"
  proof -
    have "\<lceil>r\<rceil> \<le> 0" using that(1) by (simp add: ceiling_le_iff)
    moreover have "0 \<le> \<lfloor>r'\<rfloor>" using that(2) by simp
    ultimately show ?thesis by linarith
  qed
  then show "r \<le> r' \<Longrightarrow> trunc_int r \<le> trunc_int r'"
    unfolding trunc_int_def
    by (auto intro: floor_mono ceiling_mono)
qed

lemma vec_index_valid: "is_valid b \<Longrightarrow> vec_index (aabb_min b) d \<le> vec_index (aabb_max b) d"
  by (auto simp: is_valid_def vec_index_def)

lemma bin_of_mono:
  assumes "is_valid box" "0 \<le> bin_count" "v \<le> w"
  shows "bin_of bin_count box d v \<le> bin_of bin_count box d w"
proof -
  define lo where "lo = vec_index (aabb_min box) d - 0.001"
  define hi where "hi = vec_index (aabb_max box) d + 0.001"
  have "lo < hi" using vec_index_valid [OF assms(1), of d] by (simp add: lo_def hi_def)
  then have "0 \<le> 1 / (hi - lo)" by simp
  then have "(v - lo) * (1 / (hi - lo)) \<le> (w - lo) * (1 / (hi - lo))"
    using assms(3) by (intro mult_right_mono) auto
  then have "of_int bin_count * ((v - lo) * (1 / (hi - lo))) \<le>
             of_int bin_count * ((w - lo) * (1 / (hi - lo)))"
    using assms(2) by (intro mult_left_mono) auto
  then show ?thesis
    unfolding bin_of_def Let_def lo_def [symmetric] hi_def [symmetric]
    by (rule trunc_int_mono)
qed

lemma inside_refl: "inside a a"
  by (simp add: inside_def)

lemma inside_expand: "inside a b \<Longrightarrow> inside a (expand b t)"
  by (auto simp: inside_def expand_def vec_min_def vec_max_def)

lemma overlap_valid_mono: "is_valid (overlap t a) \<Longrightarrow> inside a b \<Longrightarrow> is_valid (overlap t b)"
  by (auto simp: is_valid_def overlap_def inside_def vec_min_def vec_max_def)

lemma unsplit_grows:
  assumes "unsplit t s = (gl, gr, s')" "inside l0 (aabb_left s)" "inside r0 (aabb_right s)"
  shows "(gl \<or> gr) \<and> inside l0 (aabb_left s') \<and> inside r0 (aabb_right s')"
  using assms
  by (auto simp: unsplit_def remove_from_left_def remove_from_right_def inside_expand
      split: if_splits)

lemma classify_covered:
  assumes "covered bin_count box sp triangle"
    and "is_valid box" "0 \<le> bin_count"
    and "inside (ss_aabb_left sp) (aabb_left s)" "inside (ss_aabb_right sp) (aabb_right s)"
  shows "\<exists>gl gr s'. classify bin_count box sp triangle s = Inr (gl, gr, s') \<and>
           inside (ss_aabb_left sp) (aabb_left s') \<and> inside (ss_aabb_right sp) (aabb_right s')"
proof -
  define d where "d = ss_dimension sp"
  define t where "t = overlap (tri_aabb triangle) box"
  define bmin where "bmin = bin_of bin_count box d (vec_index (aabb_min t) d)"
  define bmax where "bmax = bin_of bin_count box d (vec_index (aabb_max t) d)"
  from assms(1) have c: "is_valid t"
    "bmin < ss_index sp \<Longrightarrow> is_valid (overlap t (ss_aabb_left sp))"
    "ss_index sp \<le> bmax \<Longrightarrow> is_valid (overlap t (ss_aabb_right sp))"
    by (auto simp: covered_def Let_def t_def d_def bmin_def bmax_def)
  have le: "bmin \<le> bmax"
    unfolding bmin_def bmax_def
    using vec_index_valid [OF c(1)] assms(2,3) by (intro bin_of_mono) auto
  have w: "vec_index (aabb_max box) d + 0.001 - (vec_index (aabb_min box) d - 0.001) \<noteq> 0"
    using vec_index_valid [OF assms(2), of d] by simp
  have vl: "bmin < ss_index sp \<Longrightarrow> is_valid (overlap t (aabb_left s))"
    using c(2) assms(4) overlap_valid_mono by blast
  have vr: "ss_index sp \<le> bmax \<Longrightarrow> is_valid (overlap t (aabb_right s))"
    using c(3) assms(5) overlap_valid_mono by blast
  show ?thesis
  proof (cases "bmin < ss_index sp \<and> ss_index sp \<le> bmax")
    case True
    obtain gl gr s' where u: "unsplit t s = (gl, gr, s')"
      by (metis prod_cases3)
    from unsplit_grows [OF u assms(4,5)] have g: "gl \<or> gr"
      "inside (ss_aabb_left sp) (aabb_left s')" "inside (ss_aabb_right sp) (aabb_right s')"
      by auto
    have "classify bin_count box sp triangle s = Inr (gl, gr, s')"
      using True vl vr w u g(1)
      unfolding classify_def Let_def d_def [symmetric] t_def [symmetric]
        bmin_def [symmetric] bmax_def [symmetric]
      by simp
    with g show ?thesis by blast
  next
    case False
    with le have one: "bmin < ss_index sp \<or> ss_index sp \<le> bmax" by linarith
    have "classify bin_count box sp triangle s =
            Inr (bmin < ss_index sp, ss_index sp \<le> bmax, s)"
      using False one vl vr w
      unfolding classify_def Let_def d_def [symmetric] t_def [symmetric]
        bmin_def [symmetric] bmax_def [symmetric]
      by auto
    with assms(4,5) show ?thesis by blast
  qed
qed

lemma classify_one_side:
  "classify bin_count box sp triangle s = Inr (gl, gr, s') \<Longrightarrow> gl \<or> gr"
  by (auto simp: classify_def Let_def split: if_splits prod.splits)

lemma spatial_split_loop_Suc:
  "spatial_split_loop bin_count box sp tris a (Suc k) i (s, tmp) =
     (case classify bin_count box sp (tris (a i)) s of
        Inl e \<Rightarrow> Inl e
      | Inr (gl, gr, s') \<Rightarrow>
          spatial_split_loop bin_count box sp tris a k (i + 1)
            (s', tmp(0 := (tmp 0)(a i := of_bool gl), 1 := (tmp 1)(a i := of_bool gr))))"
  by (simp add: Let_def)

lemma spatial_split_loop_returns:
  assumes "\<And>x. x \<in> set (range_list a i k) \<Longrightarrow> covered bin_count box sp (tris x)"
    and "is_valid box" "0 \<le> bin_count"
    and "inside (ss_aabb_left sp) (aabb_left s)" "inside (ss_aabb_right sp) (aabb_right s)"
  shows "\<exists>s' tmp'. spatial_split_loop bin_count box sp tris a k i (s, tmp) = Inr (s', tmp')"
  using assms
proof (induction k arbitrary: i s tmp)
  case 0
  then show ?case by simp
next
  case (Suc k)
  have "covered bin_count box sp (tris (a i))"
    by (intro Suc.prems(1)) simp
  from classify_covered [OF this Suc.prems(2,3,4,5)] obtain gl gr s' where
    c: "classify bin_count box sp (tris (a i)) s = Inr (gl, gr, s')"
    and g: "inside (ss_aabb_left sp) (aabb_left s')" "inside (ss_aabb_right sp) (aabb_right s')"
    by blast
  have "\<exists>s'' tmp'. spatial_split_loop bin_count box sp tris a k (i + 1)
          (s', tmp(0 := (tmp 0)(a i := of_bool gl), 1 := (tmp 1)(a i := of_bool gr)))
            = Inr (s'', tmp')"
    using Suc.prems(1) by (intro Suc.IH Suc.prems(2,3) g) simp
  with c show ?case
    unfolding spatial_split_loop_Suc by simp
qed

lemma spatial_split_loop_table:
  assumes "spatial_split_loop bin_count box sp tris a k i (s, tmp) = Inr (s', tmp')"
  shows "(\<forall>x \<in> set (range_list a i k). tmp' 0 x \<noteq> 0 \<or> tmp' 1 x \<noteq> 0) \<and>
         (\<forall>x. x \<notin> set (range_list a i k) \<longrightarrow> tmp' 0 x = tmp 0 x \<and> tmp' 1 x = tmp 1 x)"
  using assms
proof (induction k arbitrary: i s tmp)
  case 0
  then show ?case by simp
next
  case (Suc k)
  from Suc.prems obtain gl gr s1 where
    c: "classify bin_count box sp (tris (a i)) s = Inr (gl, gr, s1)"
    unfolding spatial_split_loop_Suc by (auto split: sum.splits)
  define tmp1 where
    "tmp1 = tmp(0 := (tmp 0)(a i := of_bool gl), 1 := (tmp 1)(a i := of_bool gr))"
  have step: "spatial_split_loop bin_count box sp tris a k (i + 1) (s1, tmp1) = Inr (s', tmp')"
    using Suc.prems c unfolding spatial_split_loop_Suc tmp1_def by simp
  note ih = Suc.IH [OF step]
  have g: "gl \<or> gr" using classify_one_side [OF c] .
  have v: "tmp1 0 (a i) \<noteq> 0 \<or> tmp1 1 (a i) \<noteq> 0"
    using g by (auto simp: tmp1_def)
  have o: "tmp1 0 x = tmp 0 x \<and> tmp1 1 x = tmp 1 x" if "x \<noteq> a i" for x
    using that by (simp add: tmp1_def)
  show ?case
  proof (intro conjI ballI allI impI)
    fix x assume "x \<in> set (range_list a i (Suc k))"
    then consider "x \<in> set (range_list a (i + 1) k)" | "x = a i" "x \<notin> set (range_list a (i + 1) k)"
      by auto
    then show "tmp' 0 x \<noteq> 0 \<or> tmp' 1 x \<noteq> 0"
    proof cases
      case 1
      with ih show ?thesis by blast
    next
      case 2
      with ih have "tmp' 0 x = tmp1 0 x \<and> tmp' 1 x = tmp1 1 x" by blast
      with v 2 show ?thesis by simp
    qed
  next
    fix x assume "x \<notin> set (range_list a i (Suc k))"
    then have n: "x \<noteq> a i" "x \<notin> set (range_list a (i + 1) k)" by auto
    with ih have "tmp' 0 x = tmp1 0 x \<and> tmp' 1 x = tmp1 1 x" by blast
    with o [OF n(1)] show "tmp' 0 x = tmp 0 x" "tmp' 1 x = tmp 1 x" by simp_all
  qed
qed

lemma lookups_spec:
  assumes a0: "lookup_loop tmp f 0 k f (idx, 0, []) = (idx0, l0, r0)"
    and a1: "lookup_loop tmp f 1 k f (idx0, 0, []) = (idx1, l1, r1)"
    and a2: "lookup_loop tmp f 2 k f (idx1, 0, []) = (idx2, l2, r2)"
    and Lt: "Lt = (\<lambda>x. tmp 0 x \<noteq> 0)" and Rt: "Rt = (\<lambda>x. tmp 1 x \<noteq> 0)"
  shows "l0 = int (length (filter Lt (range_list (idx 0) f k)))"
    and "l1 = int (length (filter Lt (range_list (idx 1) f k)))"
    and "l2 = int (length (filter Lt (range_list (idx 2) f k)))"
    and "r0 = filter Rt (range_list (idx 0) f k)"
    and "r1 = filter Rt (range_list (idx 1) f k)"
    and "r2 = filter Rt (range_list (idx 2) f k)"
    and "range_list (idx2 0) f (length (filter Lt (range_list (idx 0) f k))) =
           filter Lt (range_list (idx 0) f k)"
    and "range_list (idx2 1) f (length (filter Lt (range_list (idx 1) f k))) =
           filter Lt (range_list (idx 1) f k)"
    and "range_list (idx2 2) f (length (filter Lt (range_list (idx 2) f k))) =
           filter Lt (range_list (idx 2) f k)"
proof -
  note s0 = lookup_loop_spec [OF a0, simplified, folded Lt Rt]
  note s1 = lookup_loop_spec [OF a1, simplified, folded Lt Rt]
  note s2 = lookup_loop_spec [OF a2, simplified, folded Lt Rt]
  have e1: "idx0 1 = idx 1" and e2: "idx0 2 = idx 2" using s0 by simp_all
  have f0: "idx1 0 = idx0 0" and f2: "idx1 2 = idx0 2" using s1 by simp_all
  have g0: "idx2 0 = idx1 0" and g1: "idx2 1 = idx1 1" using s2 by simp_all
  show "l0 = int (length (filter Lt (range_list (idx 0) f k)))" using s0 by simp
  show "l1 = int (length (filter Lt (range_list (idx 1) f k)))" using s1 e1 by simp
  show "l2 = int (length (filter Lt (range_list (idx 2) f k)))" using s2 f2 e2 by simp
  show "r0 = filter Rt (range_list (idx 0) f k)" using s0 by simp
  show "r1 = filter Rt (range_list (idx 1) f k)" using s1 e1 by simp
  show "r2 = filter Rt (range_list (idx 2) f k)" using s2 f2 e2 by simp
  show "range_list (idx2 0) f (length (filter Lt (range_list (idx 0) f k))) =
           filter Lt (range_list (idx 0) f k)"
    using s0 f0 g0 by simp
  show "range_list (idx2 1) f (length (filter Lt (range_list (idx 1) f k))) =
           filter Lt (range_list (idx 1) f k)"
    using s1 e1 g1 by simp
  show "range_list (idx2 2) f (length (filter Lt (range_list (idx 2) f k))) =
           filter Lt (range_list (idx 2) f k)"
    using s2 f2 e2 by simp
qed

lemma classify_errors:
  "classify bin_count box sp triangle s = Inl e \<Longrightarrow> e = Undefined \<or> e = AssertFailed 253"
  by (auto simp: classify_def Let_def split: if_splits prod.splits)

lemma spatial_split_loop_errors:
  "spatial_split_loop bin_count box sp tris a k i (s, tmp) = Inl e \<Longrightarrow>
     e = Undefined \<or> e = AssertFailed 253"
proof (induction k arbitrary: i s tmp)
  case 0
  then show ?case by simp
next
  case (Suc k)
  then show ?case
    unfolding spatial_split_loop_Suc
    by (auto split: sum.splits dest: classify_errors)
qed

lemma spatial_split_partition_unfold:
  assumes "spatial_split_loop bin_count box sp tris (indices st (ss_dimension sp))
             (nat index_count) first_index
             (\<lparr>aabb_left = ss_aabb_left sp, aabb_right = ss_aabb_right sp,
               n_1 = of_int (ss_count_left sp), n_2 = of_int (ss_count_right sp),
               rejected_left = 0, rejected_right = 0\<rparr>, temp st) = Inr (s, tmp)"
    and "lookup_loop tmp first_index 0 (nat index_count) first_index (indices st, 0, [])
           = (idx0, l0, r0)"
    and "lookup_loop tmp first_index 1 (nat index_count) first_index (idx0, 0, [])
           = (idx1, l1, r1)"
    and "lookup_loop tmp first_index 2 (nat index_count) first_index (idx1, 0, [])
           = (idx2, l2, r2)"
  shows "spatial_split_partition bin_count tris box sp first_index index_count st =
          (if \<not> (l0 = l1 \<and> l1 = l2) then Inl (AssertFailed 273)
           else if \<not> (length r0 = length r1 \<and> length r1 = length r2) then Inl (AssertFailed 274)
           else if l0 \<noteq> ss_count_left sp - rejected_left s then Inl (AssertFailed 280)
           else if int (length r0) \<noteq> ss_count_right sp - rejected_right s then Inl (AssertFailed 281)
           else if \<not> (0 < l0 \<and> l0 < index_count) then Inl (AssertFailed 284)
           else if \<not> (0 < int (length r0) \<and> int (length r0) < index_count) then Inl (AssertFailed 285)
           else if \<not> (index_count \<le> l0 + int (length r0)) then Inl (AssertFailed 288)
           else Inr \<lparr>p_indices = idx2, p_temp = tmp, children_right = (r0, r1, r2),
                     n_left = l0, n_right = int (length r0),
                     child_aabb_left = aabb_left s, child_aabb_right = aabb_right s\<rparr>)"
  by (simp only: spatial_split_partition_def assms Let_def sum.case prod.case)

lemma length_filter_mset_cong:
  "mset xs = mset ys \<Longrightarrow> length (filter P xs) = length (filter P ys)"
  by (metis mset_filter size_mset)

lemma length_filter_cover:
  "\<forall>x \<in> set xs. P x \<or> Q x \<Longrightarrow> length xs \<le> length (filter P xs) + length (filter Q xs)"
  by (induction xs) auto

lemma spatial_split_partition_Inr:
  assumes r: "spatial_split_partition bin_count tris box sp first_index index_count st = Inr p"
  shows "\<forall>e \<in> {0, 1, 2}.
           left_refs p first_index e =
             filter (\<lambda>x. p_temp p 0 x \<noteq> 0)
               (range_list (indices st e) first_index (nat index_count)) \<and>
           right_refs p e =
             filter (\<lambda>x. p_temp p 1 x \<noteq> 0)
               (range_list (indices st e) first_index (nat index_count)) \<and>
           n_left p = int (length (left_refs p first_index e)) \<and>
           n_right p = int (length (right_refs p e))"
    and "\<forall>x \<in> set (range_list (indices st (ss_dimension sp)) first_index (nat index_count)).
           p_temp p 0 x \<noteq> 0 \<or> p_temp p 1 x \<noteq> 0"
proof -
  define s0 where "s0 = \<lparr>aabb_left = ss_aabb_left sp, aabb_right = ss_aabb_right sp,
               n_1 = of_int (ss_count_left sp), n_2 = of_int (ss_count_right sp),
               rejected_left = 0, rejected_right = 0\<rparr>"
  define n where "n = nat index_count"
  obtain s tmp where loop: "spatial_split_loop bin_count box sp tris (indices st (ss_dimension sp))
             n first_index (s0, temp st) = Inr (s, tmp)"
    using r unfolding spatial_split_partition_def s0_def n_def
    by (auto split: sum.splits)
  obtain idx0 l0 r0 where a0:
    "lookup_loop tmp first_index 0 n first_index (indices st, 0, []) = (idx0, l0, r0)"
    by (metis prod_cases3)
  obtain idx1 l1 r1 where a1:
    "lookup_loop tmp first_index 1 n first_index (idx0, 0, []) = (idx1, l1, r1)"
    by (metis prod_cases3)
  obtain idx2 l2 r2 where a2:
    "lookup_loop tmp first_index 2 n first_index (idx1, 0, []) = (idx2, l2, r2)"
    by (metis prod_cases3)
  define Lt where "Lt = (\<lambda>x. tmp 0 x \<noteq> 0)"
  define Rt where "Rt = (\<lambda>x. tmp 1 x \<noteq> 0)"
  note u = spatial_split_partition_unfold [OF loop [unfolded s0_def n_def]
      a0 [unfolded n_def] a1 [unfolded n_def] a2 [unfolded n_def]]
  note ls = lookups_spec [OF a0 a1 a2 Lt_def Rt_def]
  from r have c: "l0 = l1" "l1 = l2" "length r0 = length r1" "length r1 = length r2"
    unfolding u by (auto split: if_splits)
  from r have p: "p = \<lparr>p_indices = idx2, p_temp = tmp, children_right = (r0, r1, r2),
                     n_left = l0, n_right = int (length r0),
                     child_aabb_left = aabb_left s, child_aabb_right = aabb_right s\<rparr>"
    unfolding u by (auto split: if_splits)
  have pt: "(\<lambda>x. p_temp p 0 x \<noteq> 0) = Lt" "(\<lambda>x. p_temp p 1 x \<noteq> 0) = Rt"
    by (simp_all add: p Lt_def Rt_def)
  have nl: "nat (n_left p) = length (filter Lt (range_list (indices st e) first_index n))"
    if "e \<in> {0, 1, 2}" for e
    using that ls(1,2,3) c(1,2) by (auto simp: p)
  have l: "left_refs p first_index e = filter Lt (range_list (indices st e) first_index n)"
    if "e \<in> {0, 1, 2}" for e
    unfolding left_refs_def nl [OF that]
    using that ls(7,8,9) by (auto simp: p)
  have rr: "right_refs p e = filter Rt (range_list (indices st e) first_index n)"
    if "e \<in> {0, 1, 2}" for e
    using that ls(4,5,6) by (auto simp: right_refs_def p)
  have cl: "n_left p = int (length (left_refs p first_index e))" if "e \<in> {0, 1, 2}" for e
    unfolding l [OF that] using that ls(1,2,3) c(1,2) by (auto simp: p)
  have cr: "n_right p = int (length (right_refs p e))" if "e \<in> {0, 1, 2}" for e
    using that c(3,4) by (auto simp: right_refs_def p)
  show "\<forall>e \<in> {0, 1, 2}.
           left_refs p first_index e =
             filter (\<lambda>x. p_temp p 0 x \<noteq> 0)
               (range_list (indices st e) first_index (nat index_count)) \<and>
           right_refs p e =
             filter (\<lambda>x. p_temp p 1 x \<noteq> 0)
               (range_list (indices st e) first_index (nat index_count)) \<and>
           n_left p = int (length (left_refs p first_index e)) \<and>
           n_right p = int (length (right_refs p e))"
    unfolding pt n_def [symmetric] using l rr cl cr by blast
  have "p_temp p = tmp" by (simp add: p)
  then show "\<forall>x \<in> set (range_list (indices st (ss_dimension sp)) first_index (nat index_count)).
           p_temp p 0 x \<noteq> 0 \<or> p_temp p 1 x \<noteq> 0"
    using spatial_split_loop_table [OF loop] unfolding n_def by simp
qed

lemma spatial_split_partition_counts_agree:
  assumes same: "same_references (indices st) first_index index_count"
    and dim: "ss_dimension sp \<in> {0, 1, 2}"
  shows "spatial_split_partition bin_count tris box sp first_index index_count st
           \<noteq> Inl (AssertFailed 273)"
    and "spatial_split_partition bin_count tris box sp first_index index_count st
           \<noteq> Inl (AssertFailed 274)"
    and "spatial_split_partition bin_count tris box sp first_index index_count st
           \<noteq> Inl (AssertFailed 288)"
proof -
  define s0 where "s0 = \<lparr>aabb_left = ss_aabb_left sp, aabb_right = ss_aabb_right sp,
               n_1 = of_int (ss_count_left sp), n_2 = of_int (ss_count_right sp),
               rejected_left = 0, rejected_right = 0\<rparr>"
  define n where "n = nat index_count"
  define r where "r = spatial_split_partition bin_count tris box sp first_index index_count st"
  have "r \<noteq> Inl (AssertFailed 273) \<and> r \<noteq> Inl (AssertFailed 274) \<and> r \<noteq> Inl (AssertFailed 288)"
  proof (cases "spatial_split_loop bin_count box sp tris (indices st (ss_dimension sp))
             n first_index (s0, temp st)")
    case (Inl e)
    then have "r = Inl e"
      unfolding r_def spatial_split_partition_def s0_def n_def by simp
    with spatial_split_loop_errors [OF Inl] show ?thesis by auto
  next
    case (Inr a)
    then obtain s tmp where loop:
      "spatial_split_loop bin_count box sp tris (indices st (ss_dimension sp))
             n first_index (s0, temp st) = Inr (s, tmp)"
      by (cases a) auto
    obtain idx0 l0 r0 where a0:
      "lookup_loop tmp first_index 0 n first_index (indices st, 0, []) = (idx0, l0, r0)"
      by (metis prod_cases3)
    obtain idx1 l1 r1 where a1:
      "lookup_loop tmp first_index 1 n first_index (idx0, 0, []) = (idx1, l1, r1)"
      by (metis prod_cases3)
    obtain idx2 l2 r2 where a2:
      "lookup_loop tmp first_index 2 n first_index (idx1, 0, []) = (idx2, l2, r2)"
      by (metis prod_cases3)
    define Lt where "Lt = (\<lambda>x. tmp 0 x \<noteq> 0)"
    define Rt where "Rt = (\<lambda>x. tmp 1 x \<noteq> 0)"
    note u = spatial_split_partition_unfold [OF loop [unfolded s0_def n_def]
        a0 [unfolded n_def] a1 [unfolded n_def] a2 [unfolded n_def], folded r_def]
    note ls = lookups_spec [OF a0 a1 a2 Lt_def Rt_def]
    have m1: "mset (range_list (indices st 1) first_index n) =
              mset (range_list (indices st 0) first_index n)"
      and m2: "mset (range_list (indices st 2) first_index n) =
              mset (range_list (indices st 0) first_index n)"
      using same by (simp_all add: same_references_def n_def)
    have l: "l0 = l1" "l1 = l2"
      unfolding ls(1,2,3)
      using length_filter_mset_cong [OF m1, of Lt] length_filter_mset_cong [OF m2, of Lt]
      by simp_all
    have rl: "length r0 = length r1" "length r1 = length r2"
      unfolding ls(4,5,6)
      using length_filter_mset_cong [OF m1, of Rt] length_filter_mset_cong [OF m2, of Rt]
      by simp_all
    have md: "mset (range_list (indices st 0) first_index n) =
              mset (range_list (indices st (ss_dimension sp)) first_index n)"
      using same_references_mset [OF same dim, of 0] by (simp add: n_def)
    have "set (range_list (indices st 0) first_index n) =
          set (range_list (indices st (ss_dimension sp)) first_index n)"
      using md by (rule mset_eq_setD)
    then have "\<forall>x \<in> set (range_list (indices st 0) first_index n). Lt x \<or> Rt x"
      using spatial_split_loop_table [OF loop] by (simp add: Lt_def Rt_def)
    from length_filter_cover [OF this]
    have "int n \<le> l0 + int (length r0)"
      unfolding ls(1,4) by simp
    then have "index_count \<le> l0 + int (length r0)"
      by (auto simp: n_def split: if_splits)
    with l rl show ?thesis unfolding u by simp
  qed
  then show "spatial_split_partition bin_count tris box sp first_index index_count st
           \<noteq> Inl (AssertFailed 273)"
    and "spatial_split_partition bin_count tris box sp first_index index_count st
           \<noteq> Inl (AssertFailed 274)"
    and "spatial_split_partition bin_count tris box sp first_index index_count st
           \<noteq> Inl (AssertFailed 288)"
    by (simp_all add: r_def)
qed

lemma spatial_split_partition_covered:
  assumes cov: "\<forall>x \<in> set (range_list (indices st (ss_dimension sp)) first_index
                    (nat index_count)). covered bin_count box sp (tris x)"
    and box: "is_valid box" and bins: "0 \<le> bin_count"
  shows "spatial_split_partition bin_count tris box sp first_index index_count st
           \<noteq> Inl (AssertFailed 253)"
    and "spatial_split_partition bin_count tris box sp first_index index_count st
           \<noteq> Inl Undefined"
proof -
  define s0 where "s0 = \<lparr>aabb_left = ss_aabb_left sp, aabb_right = ss_aabb_right sp,
               n_1 = of_int (ss_count_left sp), n_2 = of_int (ss_count_right sp),
               rejected_left = 0, rejected_right = 0\<rparr>"
  have i: "inside (ss_aabb_left sp) (aabb_left s0)" "inside (ss_aabb_right sp) (aabb_right s0)"
    by (simp_all add: s0_def inside_refl)
  have "\<exists>s tmp. spatial_split_loop bin_count box sp tris (indices st (ss_dimension sp))
       (nat index_count) first_index (s0, temp st) = Inr (s, tmp)"
  proof (rule spatial_split_loop_returns [OF _ box bins i])
    fix x
    assume "x \<in> set (range_list (indices st (ss_dimension sp)) first_index (nat index_count))"
    then show "covered bin_count box sp (tris x)" using cov by blast
  qed
  then obtain s tmp where loop:
    "spatial_split_loop bin_count box sp tris (indices st (ss_dimension sp))
       (nat index_count) first_index (s0, temp st) = Inr (s, tmp)"
    by blast
  obtain idx0 l0 r0 where a0:
    "lookup_loop tmp first_index 0 (nat index_count) first_index (indices st, 0, [])
       = (idx0, l0, r0)"
    by (metis prod_cases3)
  obtain idx1 l1 r1 where a1:
    "lookup_loop tmp first_index 1 (nat index_count) first_index (idx0, 0, []) = (idx1, l1, r1)"
    by (metis prod_cases3)
  obtain idx2 l2 r2 where a2:
    "lookup_loop tmp first_index 2 (nat index_count) first_index (idx1, 0, []) = (idx2, l2, r2)"
    by (metis prod_cases3)
  note u = spatial_split_partition_unfold [OF loop [unfolded s0_def] a0 a1 a2]
  show "spatial_split_partition bin_count tris box sp first_index index_count st
           \<noteq> Inl (AssertFailed 253)"
    and "spatial_split_partition bin_count tris box sp first_index index_count st
           \<noteq> Inl Undefined"
    unfolding u by simp_all
qed

lemma spatial_split_partition_errors:
  assumes "spatial_split_partition bin_count tris box sp first_index index_count st = Inl e"
  shows "e \<in> {Undefined, AssertFailed 253, AssertFailed 273, AssertFailed 274,
              AssertFailed 280, AssertFailed 281, AssertFailed 284, AssertFailed 285,
              AssertFailed 288}"
proof -
  define s0 where "s0 = \<lparr>aabb_left = ss_aabb_left sp, aabb_right = ss_aabb_right sp,
               n_1 = of_int (ss_count_left sp), n_2 = of_int (ss_count_right sp),
               rejected_left = 0, rejected_right = 0\<rparr>"
  show ?thesis
  proof (cases "spatial_split_loop bin_count box sp tris (indices st (ss_dimension sp))
             (nat index_count) first_index (s0, temp st)")
    case (Inl e')
    then have "spatial_split_partition bin_count tris box sp first_index index_count st = Inl e'"
      unfolding spatial_split_partition_def s0_def by simp
    with spatial_split_loop_errors [OF Inl] assms show ?thesis by auto
  next
    case (Inr a)
    then obtain s tmp where loop:
      "spatial_split_loop bin_count box sp tris (indices st (ss_dimension sp))
             (nat index_count) first_index (s0, temp st) = Inr (s, tmp)"
      by (cases a) auto
    obtain idx0 l0 r0 where a0:
      "lookup_loop tmp first_index 0 (nat index_count) first_index (indices st, 0, [])
         = (idx0, l0, r0)"
      by (metis prod_cases3)
    obtain idx1 l1 r1 where a1:
      "lookup_loop tmp first_index 1 (nat index_count) first_index (idx0, 0, []) = (idx1, l1, r1)"
      by (metis prod_cases3)
    obtain idx2 l2 r2 where a2:
      "lookup_loop tmp first_index 2 (nat index_count) first_index (idx1, 0, []) = (idx2, l2, r2)"
      by (metis prod_cases3)
    note u = spatial_split_partition_unfold [OF loop [unfolded s0_def] a0 a1 a2]
    from assms show ?thesis
      unfolding u by (auto split: if_splits)
  qed
qed

lemma mset_filter_cong_list:
  "mset xs = mset ys \<Longrightarrow> mset (filter P xs) = mset (filter P ys)"
  by (metis mset_filter)

lemma assignedI:
  assumes same: "same_references idx f c"
    and refs: "\<And>e. e \<in> {0, 1, 2} \<Longrightarrow>
                 left_refs p f e = filter P (range_list (idx e) f (nat c)) \<and>
                 right_refs p e = filter Q (range_list (idx e) f (nat c))"
    and cover: "\<And>x. x \<in> set (range_list (idx 0) f (nat c)) \<Longrightarrow> P x \<or> Q x"
    and nl: "0 \<le> n_left p"
    and nr: "n_right p = int (length (right_refs p 0))"
  shows "assigned p f c idx"
  unfolding assigned_def
proof (intro ballI conjI)
  fix e :: int
  assume e: "e \<in> {0, 1, 2}"
  have m: "mset (range_list (idx e) f (nat c)) = mset (range_list (idx 0) f (nat c))"
    using same_references_mset [OF same _ e, of 0] by simp
  have z: "(0 :: int) \<in> {0, 1, 2}" by simp
  show "set (range_list (idx e) f (nat c)) \<subseteq> set (left_refs p f e) \<union> set (right_refs p e)"
  proof
    fix x
    assume x: "x \<in> set (range_list (idx e) f (nat c))"
    then have "x \<in> set (range_list (idx 0) f (nat c))"
      using mset_eq_setD [OF m] by simp
    then have "P x \<or> Q x" by (rule cover)
    with x show "x \<in> set (left_refs p f e) \<union> set (right_refs p e)"
      using refs [OF e] by auto
  qed
  show l: "mset (left_refs p f e) = mset (left_refs p f 0)"
    using refs [OF e] refs [OF z] mset_filter_cong_list [OF m] by simp
  show r: "mset (right_refs p e) = mset (right_refs p 0)"
    using refs [OF e] refs [OF z] mset_filter_cong_list [OF m] by simp
  show "int (length (left_refs p f e)) = n_left p"
    using nl by (simp add: left_refs_def)
  have "length (right_refs p e) = length (right_refs p 0)"
    using r by (rule mset_eq_length)
  then show "int (length (right_refs p e)) = n_right p"
    using nr by simp
qed



end
